theory Spec2Isabelle
  imports Complex_Main
begin

section \<open>The build orchestrator of gridsome (lib/build.js)\<close>

text \<open>
  The module is asynchronous JavaScript that calls external collaborators (the
  application, the compiler, two worker pools, the file system). The embedding makes
  every such call explicit:
  \<^item> what an external call answers is read from an environment record \<open>env\<close>: an
    awaited call either resolves or rejects with an error value;
  \<^item> what the module does is a list of events, in the order in which they happen;
  \<^item> an awaited stage is a triple: the events up to the moment the stage settles, its
    result (\<open>Inl\<close> the error it rejects with), and the events that its still pending
    callbacks produce after it has settled.
  The order in which pending worker calls settle is not fixed by the code; it is read
  from a schedule in the environment, one choice per settlement. Each settlement is
  handled in one step: the continuation of the callback and the bookkeeping of the mapper
  run before the next settlement is looked at.
\<close>

subsection \<open>Data\<close>

type_synonym err = string

text \<open>An entry of the render queue; the module only forwards it.\<close>

type_synonym page = string

text \<open>An entry of \<open>app.assets.files.queue\<close> or \<open>app.assets.images.queue\<close>.\<close>

record asset =
  filePath :: string
  destPath :: string

text \<open>The options of \<open>app.config\<close> that the module reads;
  \<open>removeUnused\<close> is \<open>config.images.removeUnused\<close>.\<close>

record config =
  outputDir :: string
  imagesDir :: string
  manifestsDir :: string
  staticDir :: string
  emptyOutputDir :: bool
  cacheBusting :: bool
  removeUnused :: bool

record app =
  app_config :: config
  files_queue :: "asset list"
  images_queue :: "asset list"

text \<open>The awaited calls of the exported function, in the order of the source.\<close>

datatype stage =
    CreateApp | BeforeBuild | EmptyOutputDir | RunWebpack | ExecuteQueries
  | RenderHTML | ProcessFiles | ProcessImages | CopyStatic | AfterBuild | RemoveManifests

datatype line =
    Processing nat int  \<comment> \<open>\<open>Processing images (t images) - p%\<close>\<close>
  | Processed nat  \<comment> \<open>\<open>Process images (t images) - ..s\<close>\<close>

datatype msg =
    CompilingAssets | CompiledAssets | RenderedHTML nat | ProcessedFiles nat
  | RemovedImages nat | Warnings | Finished

datatype event =
    Begin stage  \<comment> \<open>an awaited call of the exported function is made\<close>
  | End stage  \<comment> \<open>that call has resolved and the function goes on\<close>
  | CreateWorker string
  | WorkerRender string "page list"  \<comment> \<open>\<open>worker.render\<close>: hash and pages\<close>
  | WorkerProcess "asset list"  \<comment> \<open>\<open>worker.process\<close>: the chunk\<close>
  | Settled nat "err option"  \<comment> \<open>the worker call of chunk i resolves or rejects\<close>
  | WorkerEnd string  \<comment> \<open>\<open>worker.end()\<close> of the named worker\<close>
  | ReadDir string
  | Copy string string
  | Remove string string  \<comment> \<open>\<open>fs.remove(path.join(dir, name))\<close>\<close>
  | WriteLine line
  | Log msg

text \<open>What the external calls answer during one run.\<close>

record env =
  createApp_res :: "err + app"
  beforeBuild_res :: "err option"
  emptyDir_res :: "err option"
  isTTY :: bool
  compiler_res :: "err + string"  \<comment> \<open>\<open>stats.hash\<close>\<close>
  createRenderQueue_res :: "page list"
  executeQueries_res :: "err option"
  render_res :: "nat \<Rightarrow> err option"  \<comment> \<open>\<open>worker.render\<close> on chunk i\<close>
  render_order :: "nat list"
  copy_res :: "string \<Rightarrow> string \<Rightarrow> err option"
  readdir_res :: "err + string list"
  cpus_logical :: nat  \<comment> \<open>\<open>sysinfo.cpus.logical\<close>\<close>
  process_res :: "nat \<Rightarrow> err option"  \<comment> \<open>\<open>worker.process\<close> on chunk i\<close>
  process_order :: "nat list"
  remove_res :: "string \<Rightarrow> err option"  \<comment> \<open>\<open>fs.remove\<close> of a name in the images directory\<close>
  staticDir_exists :: bool
  afterBuild_res :: "err option"
  removeManifests_res :: "err option"

type_synonym 'a run = "event list \<times> (err + 'a) \<times> event list"

definition run_events :: "'a run \<Rightarrow> event list" where
  "run_events m = fst m @ snd (snd m)"

definition run_result :: "'a run \<Rightarrow> err + 'a" where
  "run_result m = fst (snd m)"

subsection \<open>Library functions the module calls\<close>

text \<open>Modelled from the spec: \<open>chunk\<close> is lodash's function and not part of the
  sources. The Chunker partitions an ordered sequence into contiguous groups of a fixed
  size, the last one possibly shorter, preserving order; an empty sequence or a size
  below one gives no group.\<close>

function chunk :: "'a list \<Rightarrow> nat \<Rightarrow> 'a list list" where
  "chunk array n =
     (if array = [] \<or> n < 1 then [] else take n array # chunk (drop n array) n)"
  by pat_completeness auto
termination
  by (relation "measure (\<lambda>(array, n). length array)") auto

declare chunk.simps [simp del]

text \<open>Node's \<open>path.basename\<close> for POSIX paths: trailing slashes are dropped, then what
  follows the last slash is returned.\<close>

definition basename :: "string \<Rightarrow> string" where
  "basename p =
     rev (takeWhile (\<lambda>c. c \<noteq> CHR ''/'') (dropWhile (\<lambda>c. c = CHR ''/'') (rev p)))"

text \<open>JavaScript's \<open>Math.round\<close>: the nearest integer, a tie going up. The quotient it
  is applied to is taken as the exact rational.\<close>

definition Math_round :: "rat \<Rightarrow> int" where
  "Math_round x = \<lfloor>x + 1 / 2\<rfloor>"

text \<open>The next pending call to settle: the schedule's choice among those in flight
  (the oldest one when the schedule is used up, the newest one when the choice is out of
  range).\<close>

definition pick :: "nat list \<Rightarrow> nat \<Rightarrow> nat" where
  "pick sched n = (case sched of [] \<Rightarrow> 0 | c # _ \<Rightarrow> min c (n - 1))"

definition without :: "nat \<Rightarrow> 'a list \<Rightarrow> 'a list" where
  "without k xs = take k xs @ drop (Suc k) xs"

text \<open>Modelled from the spec: \<open>pMap\<close> is the p-map package and not part of the sources.
  The Concurrency-Limited Mapper invokes the mapper on each item, at most \<open>concurrency\<close>
  at a time and in the order of submission, resolves when all have completed and rejects
  on the first failure, after which it schedules no further item; calls in flight are
  not cancelled. A concurrency below one is rejected with a TypeError, as the package
  does. The mapper is given by the events of its call, the result of the call it awaits
  (by item index) and what it does, on a state of its own, once that call has resolved.
  \<open>pMap_stragglers\<close> is what the calls still in flight do after the rejection.\<close>

function pMap_stragglers ::
  "(nat \<Rightarrow> err option) \<Rightarrow> ('s \<Rightarrow> 's \<times> event list) \<Rightarrow> nat list \<Rightarrow> nat list \<Rightarrow> 's
    \<Rightarrow> event list" where
  "pMap_stragglers res cont sched inflight st =
     (if inflight = [] then []
      else let k = pick sched (length inflight); i = inflight ! k in
        (case res i of
           Some e \<Rightarrow> Settled i (Some e) # pMap_stragglers res cont (tl sched) (without k inflight) st
         | None \<Rightarrow>
             Settled i None # snd (cont st)
               @ pMap_stragglers res cont (tl sched) (without k inflight) (fst (cont st))))"
  by pat_completeness auto
termination
  by (relation "measure (\<lambda>(res, cont, sched, inflight, st). length inflight)")
    (auto simp: without_def pick_def neq_Nil_conv split: list.splits)

declare pMap_stragglers.simps [simp del]

text \<open>Modelled from the spec: the mapper up to its settlement. A call that resolves runs
  the rest of the mapper and lets the next pending item start; the first call that
  rejects settles the mapper, and it resolves when nothing is in flight any more.\<close>

function pMap_loop ::
  "('a \<Rightarrow> event list) \<Rightarrow> (nat \<Rightarrow> err option) \<Rightarrow> ('s \<Rightarrow> 's \<times> event list) \<Rightarrow> nat list
    \<Rightarrow> (nat \<times> 'a) list \<Rightarrow> nat list \<Rightarrow> 's \<Rightarrow> unit run" where
  "pMap_loop call res cont sched pending inflight st =
     (if inflight = [] then ([], Inr (), [])
      else let k = pick sched (length inflight); i = inflight ! k; rest = without k inflight in
        (case res i of
           Some e \<Rightarrow> ([Settled i (Some e)], Inl e, pMap_stragglers res cont (tl sched) rest st)
         | None \<Rightarrow>
             (case pMap_loop call res cont (tl sched) (tl pending)
                     (rest @ map fst (take 1 pending)) (fst (cont st)) of
                (pre, r, post) \<Rightarrow>
                  (Settled i None # snd (cont st) @ concat (map (call \<circ> snd) (take 1 pending)) @ pre,
                   r, post))))"
  by pat_completeness auto
termination
  by (relation "measure (\<lambda>(call, res, cont, sched, pending, inflight, st).
        length pending + length inflight)")
    (auto simp: without_def pick_def neq_Nil_conv split: list.splits)

declare pMap_loop.simps [simp del]

text \<open>Modelled from the spec: the entry point starts the first \<open>concurrency\<close> items.\<close>

definition pMap ::
  "('a \<Rightarrow> event list) \<Rightarrow> (nat \<Rightarrow> err option) \<Rightarrow> ('s \<Rightarrow> 's \<times> event list) \<Rightarrow> nat list
    \<Rightarrow> 'a list \<Rightarrow> nat \<Rightarrow> 's \<Rightarrow> unit run" where
  "pMap call res cont sched items concurrency st =
     (if concurrency < 1
      then ([], Inl ''TypeError: Expected `concurrency` to be a number from 1 and up'', [])
      else let indexed = zip [0..<length items] items in
        (case pMap_loop call res cont sched (drop concurrency indexed)
                (map fst (take concurrency indexed)) st of
           (pre, r, post) \<Rightarrow>
             (concat (map (call \<circ> snd) (take concurrency indexed)) @ pre, r, post)))"

subsection \<open>The stages\<close>

text \<open>An external call that is awaited and whose value is not used.\<close>

definition ext :: "err option \<Rightarrow> unit run" where
  "ext r = (case r of None \<Rightarrow> ([], Inr (), []) | Some e \<Rightarrow> ([], Inl e, []))"

definition runWebpack :: "env \<Rightarrow> string run" where
  "runWebpack env =
     (let notice = (if \<not> isTTY env then [Log CompilingAssets] else []) in
      case compiler_res env of
        Inl e \<Rightarrow> (notice, Inl e, [])
      | Inr h \<Rightarrow> (notice @ [Log CompiledAssets], Inr h, []))"

text \<open>\<open>renderHTML\<close>: every chunk's callback is started by \<open>map\<close>, so all calls of
  \<open>worker.render\<close> are made at once. A call that rejects runs the \<open>catch\<close> block of its
  own callback (\<open>worker.end()\<close>, then the error is thrown again); \<open>Promise.all\<close> rejects
  with the first error and the callbacks of the other chunks still run.\<close>

function render_stragglers :: "env \<Rightarrow> nat list \<Rightarrow> nat list \<Rightarrow> event list" where
  "render_stragglers env sched inflight =
     (if inflight = [] then []
      else let k = pick sched (length inflight); i = inflight ! k in
        (case render_res env i of
           Some e \<Rightarrow> [Settled i (Some e), WorkerEnd ''html-writer'']
         | None \<Rightarrow> [Settled i None])
        @ render_stragglers env (tl sched) (without k inflight))"
  by pat_completeness auto
termination
  by (relation "measure (\<lambda>(env, sched, inflight). length inflight)")
    (auto simp: without_def pick_def neq_Nil_conv split: list.splits)

declare render_stragglers.simps [simp del]

function render_settle :: "env \<Rightarrow> nat list \<Rightarrow> nat list \<Rightarrow> unit run" where
  "render_settle env sched inflight =
     (if inflight = [] then ([], Inr (), [])
      else let k = pick sched (length inflight); i = inflight ! k; rest = without k inflight in
        (case render_res env i of
           Some e \<Rightarrow>
             ([Settled i (Some e), WorkerEnd ''html-writer''], Inl e,
              render_stragglers env (tl sched) rest)
         | None \<Rightarrow>
             (case render_settle env (tl sched) rest of
                (pre, r, post) \<Rightarrow> (Settled i None # pre, r, post))))"
  by pat_completeness auto
termination
  by (relation "measure (\<lambda>(env, sched, inflight). length inflight)")
    (auto simp: without_def pick_def neq_Nil_conv split: list.splits)

declare render_settle.simps [simp del]

definition renderHTML :: "env \<Rightarrow> page list \<Rightarrow> string \<Rightarrow> unit run" where
  "renderHTML env renderQueue hash =
     (let chunks = chunk renderQueue 350 in
      case render_settle env (render_order env) [0..<length chunks] of
        (pre, Inl e, post) \<Rightarrow>
          (CreateWorker ''html-writer'' # map (WorkerRender hash) chunks @ pre, Inl e, post)
      | (pre, Inr u, post) \<Rightarrow>
          (CreateWorker ''html-writer'' # map (WorkerRender hash) chunks @ pre
             @ [WorkerEnd ''html-writer'', Log (RenderedHTML (length renderQueue))],
           Inr (), post))"

fun copy_all :: "env \<Rightarrow> asset list \<Rightarrow> event list \<times> (err + unit)" where
  "copy_all env [] = ([], Inr ())"
| "copy_all env (file # files) =
     (case copy_res env (filePath file) (destPath file) of
        Some e \<Rightarrow> ([Copy (filePath file) (destPath file)], Inl e)
      | None \<Rightarrow>
          (case copy_all env files of
             (evs, r) \<Rightarrow> (Copy (filePath file) (destPath file) # evs, r)))"

definition processFiles :: "env \<Rightarrow> asset list \<Rightarrow> unit run" where
  "processFiles env files =
     (case copy_all env files of
        (evs, Inl e) \<Rightarrow> (evs, Inl e, [])
      | (evs, Inr u) \<Rightarrow> (evs @ [Log (ProcessedFiles (length files))], Inr (), []))"

definition newImages :: "asset list \<Rightarrow> string list" where
  "newImages queue = map (\<lambda>c. basename (destPath c)) queue"

definition extraImages :: "string list \<Rightarrow> asset list \<Rightarrow> string list" where
  "extraImages existingImages queue =
     filter (\<lambda>v. v \<notin> set (newImages queue)) existingImages"

fun remove_all :: "env \<Rightarrow> string \<Rightarrow> string list \<Rightarrow> event list \<times> (err + unit)" where
  "remove_all env dir [] = ([], Inr ())"
| "remove_all env dir (filename # rest) =
     (case remove_res env filename of
        Some e \<Rightarrow> ([Remove dir filename], Inl e)
      | None \<Rightarrow>
          (case remove_all env dir rest of (evs, r) \<Rightarrow> (Remove dir filename # evs, r)))"

text \<open>The last block of \<open>processImages\<close>: the images that existed before this build
  started and are not in use are removed.\<close>

definition removeUnusedImages ::
  "env \<Rightarrow> config \<Rightarrow> string list \<Rightarrow> asset list \<Rightarrow> event list \<times> (err + unit)" where
  "removeUnusedImages env cfg existingImages queue =
     (if removeUnused cfg \<and> existingImages \<noteq> [] then
        (if extraImages existingImages queue \<noteq> [] then
           (case remove_all env (imagesDir cfg) (extraImages existingImages queue) of
              (evs, Inl e) \<Rightarrow> (evs, Inl e)
            | (evs, Inr u) \<Rightarrow>
                (evs @ [Log (RemovedImages (length (extraImages existingImages queue)))], Inr ()))
         else ([], Inr ()))
      else ([], Inr ()))"

definition readExisting :: "env \<Rightarrow> config \<Rightarrow> event list \<times> (err + string list)" where
  "readExisting env cfg =
     (if \<not> emptyOutputDir cfg then ([ReadDir (imagesDir cfg)], readdir_res env)
      else ([], Inr []))"

definition percent :: "nat \<Rightarrow> nat \<Rightarrow> int" where
  "percent progress totalJobs = Math_round (of_nat (progress * 100) / of_nat totalJobs)"

definition processImages :: "env \<Rightarrow> asset list \<Rightarrow> config \<Rightarrow> unit run" where
  "processImages env queue cfg =
     (let chunks = chunk queue 25;
          totalAssets = length queue;
          totalJobs = length chunks
      in case readExisting env cfg of
        (rd, Inl e) \<Rightarrow> (CreateWorker ''image-processor'' # rd, Inl e, [])
      | (rd, Inr existingImages) \<Rightarrow>
          (case pMap (\<lambda>c. [WorkerProcess c]) (process_res env)
                  (\<lambda>progress. (Suc progress,
                     [WriteLine (Processing totalAssets (percent (Suc progress) totalJobs))]))
                  (process_order env) chunks (cpus_logical env) 0 of
             (pre, Inl e, post) \<Rightarrow>
               (CreateWorker ''image-processor'' # rd @ WriteLine (Processing totalAssets 0) # pre
                  @ [WorkerEnd ''image-processor''],
                Inl e, post)
           | (pre, Inr u, post) \<Rightarrow>
               (case removeUnusedImages env cfg existingImages queue of
                  (evs, r) \<Rightarrow>
                    (CreateWorker ''image-processor'' # rd @ WriteLine (Processing totalAssets 0)
                       # pre @ [WorkerEnd ''image-processor'', WriteLine (Processed totalAssets)]
                       @ evs,
                     r, post))))"

subsection \<open>The exported function\<close>

text \<open>\<open>await\<close> brackets a stage with the moment its call is made and the moment the
  exported function resumes; \<open>bind_run\<close> is the sequencing of two awaits: a rejection
  leaves the function, nothing after it runs. The synchronous calls of the function
  (\<open>createRenderQueue\<close>, the redirects hook, \<open>fs.existsSync\<close>, \<open>createWorker\<close> and
  the logging functions) are taken to return; of the log lines only those that tell the
  stages apart are kept, without the elapsed time.\<close>

definition await :: "stage \<Rightarrow> 'a run \<Rightarrow> 'a run" where
  "await s m =
     (case m of
        (pre, Inl e, post) \<Rightarrow> (Begin s # pre, Inl e, post)
      | (pre, Inr x, post) \<Rightarrow> (Begin s # pre @ [End s], Inr x, post))"

definition skip :: "unit run" where
  "skip = ([], Inr (), [])"

definition bind_run :: "'a run \<Rightarrow> ('a \<Rightarrow> 'b run) \<Rightarrow> 'b run" where
  "bind_run m f =
     (case m of
        (pre, Inl e, post) \<Rightarrow> (pre, Inl e, post)
      | (pre, Inr x, post) \<Rightarrow>
          (case f x of (pre', r, post') \<Rightarrow> (pre @ pre', r, post @ post')))"

definition createApp :: "env \<Rightarrow> app run" where
  "createApp env = ([], createApp_res env, [])"

definition hashString :: "config \<Rightarrow> string \<Rightarrow> string" where
  "hashString cfg stats_hash = (if cacheBusting cfg then stats_hash else ''gridsome'')"

definition build :: "env \<Rightarrow> app run" where
  "build env =
     bind_run (await CreateApp (createApp env)) (\<lambda>app.
     bind_run (await BeforeBuild (ext (beforeBuild_res env))) (\<lambda>_.
     bind_run (if emptyOutputDir (app_config app)
               then await EmptyOutputDir (ext (emptyDir_res env)) else skip) (\<lambda>_.
     bind_run (await RunWebpack (runWebpack env)) (\<lambda>stats_hash.
     bind_run (await ExecuteQueries (ext (executeQueries_res env))) (\<lambda>_.
     bind_run (await RenderHTML
                 (renderHTML env (createRenderQueue_res env) (hashString (app_config app) stats_hash))) (\<lambda>_.
     bind_run (await ProcessFiles (processFiles env (files_queue app))) (\<lambda>_.
     bind_run (await ProcessImages (processImages env (images_queue app) (app_config app))) (\<lambda>_.
     bind_run (if staticDir_exists env
               then await CopyStatic
                      (ext (copy_res env (staticDir (app_config app)) (outputDir (app_config app))))
               else skip) (\<lambda>_.
     bind_run (await AfterBuild (ext (afterBuild_res env))) (\<lambda>_.
     bind_run (await RemoveManifests (ext (removeManifests_res env))) (\<lambda>_.
     ([Log Warnings, Log Finished], Inr app, []))))))))))))"

subsection \<open>Reading a run\<close>

text \<open>The calls of one kind among the events of a run, in order.\<close>

fun removed :: "event list \<Rightarrow> (string \<times> string) list" where
  "removed [] = []"
| "removed (Remove dir name # evs) = (dir, name) # removed evs"
| "removed (ev # evs) = removed evs"

fun readdirs :: "event list \<Rightarrow> string list" where
  "readdirs [] = []"
| "readdirs (ReadDir dir # evs) = dir # readdirs evs"
| "readdirs (ev # evs) = readdirs evs"

fun dispatched :: "event list \<Rightarrow> asset list list" where
  "dispatched [] = []"
| "dispatched (WorkerProcess c # evs) = c # dispatched evs"
| "dispatched (ev # evs) = dispatched evs"

fun rendered :: "event list \<Rightarrow> (string \<times> page list) list" where
  "rendered [] = []"
| "rendered (WorkerRender h pages # evs) = (h, pages) # rendered evs"
| "rendered (ev # evs) = rendered evs"

fun ends :: "event list \<Rightarrow> string list" where
  "ends [] = []"
| "ends (WorkerEnd w # evs) = w # ends evs"
| "ends (ev # evs) = ends evs"

fun failures :: "event list \<Rightarrow> (nat \<times> err) list" where
  "failures [] = []"
| "failures (Settled i (Some e) # evs) = (i, e) # failures evs"
| "failures (ev # evs) = failures evs"

text \<open>The completions of worker calls (\<open>None\<close>) and the percentages written to the
  progress line (\<open>Some p\<close>), in order.\<close>

fun completions :: "event list \<Rightarrow> int option list" where
  "completions [] = []"
| "completions (Settled i None # evs) = None # completions evs"
| "completions (WriteLine (Processing t p) # evs) = Some p # completions evs"
| "completions (ev # evs) = completions evs"

fun markers :: "event list \<Rightarrow> event list" where
  "markers [] = []"
| "markers (Begin s # evs) = Begin s # markers evs"
| "markers (End s # evs) = End s # markers evs"
| "markers (ev # evs) = markers evs"

subsection \<open>A sample run\<close>

text \<open>A configuration, an application and an environment in which every external call
  resolves; the images directory holds three files from an earlier build, of which the
  image queue produces one again.\<close>

definition sample_config :: config where
  "sample_config =
     \<lparr>outputDir = ''dist'', imagesDir = ''dist/assets/static'',
      manifestsDir = ''dist/assets/manifest'', staticDir = ''static'',
      emptyOutputDir = False, cacheBusting = True, removeUnused = True\<rparr>"

definition sample_images :: "asset list" where
  "sample_images =
     [\<lparr>filePath = ''src/a.png'', destPath = ''dist/assets/static/a.png''\<rparr>,
      \<lparr>filePath = ''src/d.png'', destPath = ''dist/assets/static/d.png''\<rparr>]"

definition sample_app :: app where
  "sample_app =
     \<lparr>app_config = sample_config,
      files_queue = [\<lparr>filePath = ''src/favicon.png'', destPath = ''dist/favicon.png''\<rparr>],
      images_queue = sample_images\<rparr>"

definition sample_env :: env where
  "sample_env =
     \<lparr>createApp_res = Inr sample_app, beforeBuild_res = None, emptyDir_res = None,
      isTTY = True, compiler_res = Inr ''5f2c'', createRenderQueue_res = [''/'', ''/about''],
      executeQueries_res = None, render_res = (\<lambda>i. None), render_order = [],
      copy_res = (\<lambda>src dest. None), readdir_res = Inr [''a.png'', ''b.png'', ''c.png''],
      cpus_logical = 4, process_res = (\<lambda>i. None), process_order = [],
      remove_res = (\<lambda>name. None), staticDir_exists = True, afterBuild_res = None,
      removeManifests_res = None\<rparr>"

text \<open>The number of worker calls that have resolved.\<close>

definition completed :: "event list \<Rightarrow> nat" where
  "completed evs = length (filter (\<lambda>c. c = None) (completions evs))"

text \<open>A queue of 51 images (three chunks) on two logical processors, where the worker
  call of the second chunk is rejected and settles first.\<close>

definition many_images :: "asset list" where
  "many_images =
     replicate 51 \<lparr>filePath = ''src/a.png'', destPath = ''dist/assets/static/a.png''\<rparr>"

definition failing_env :: env where
  "failing_env =
     sample_env\<lparr>cpus_logical := 2,
       process_res := (\<lambda>i. if i = 1 then Some ''EIMAGE'' else None),
       process_order := [1]\<rparr>"

text \<open>A render queue of 351 pages (two chunks) for which both calls of \<open>worker.render\<close>
  are rejected.\<close>

definition many_pages :: "page list" where
  "many_pages = replicate 351 ''/page''"

definition broken_template_env :: env where
  "broken_template_env =
     sample_env\<lparr>createRenderQueue_res := many_pages,
       render_res := (\<lambda>i. Some ''template error'')\<rparr>"

subsection \<open>The order of the stages\<close>

text \<open>The stages a build goes through, and the shape of an orderly run: each stage
  begins after the one before it has ended, and a run that rejects stops at the stage
  that has begun and not ended.\<close>

definition pipeline :: "env \<Rightarrow> stage list" where
  "pipeline env =
     CreateApp #
     (case createApp_res env of
        Inl e \<Rightarrow> []
      | Inr app \<Rightarrow>
          [BeforeBuild] @ (if emptyOutputDir (app_config app) then [EmptyOutputDir] else [])
          @ [RunWebpack, ExecuteQueries, RenderHTML, ProcessFiles, ProcessImages]
          @ (if staticDir_exists env then [CopyStatic] else [])
          @ [AfterBuild, RemoveManifests])"

fun in_order :: "stage list \<Rightarrow> bool \<Rightarrow> event list \<Rightarrow> bool" where
  "in_order [] resolved ms = (resolved \<and> ms = [])"
| "in_order (s # ss) resolved [Begin s'] = (\<not> resolved \<and> s' = s)"
| "in_order (s # ss) resolved (Begin s' # End s'' # ms) =
     (s' = s \<and> s'' = s \<and> in_order ss resolved ms)"
| "in_order (s # ss) resolved ms = False"

text \<open>The plan of a build, written from the sequence of steps of the specification:
  the stages in their order, each with the run of the function that does its work on
  what the environment answers. The stage that clears the output directory is planned
  only when \<open>emptyOutputDir\<close> is set, the copy of the static directory only when that
  directory exists, and nothing is planned after an application that cannot be created.
  HTML is rendered with the hash that comes out of the compiler stage.\<close>

definition forget :: "'a run \<Rightarrow> unit run" where
  "forget m = (case m of (pre, r, post) \<Rightarrow> (pre, map_sum id (\<lambda>x. ()) r, post))"

definition stage_runs :: "env \<Rightarrow> (stage \<times> unit run) list" where
  "stage_runs env =
     (CreateApp, forget (createApp env)) #
     (case createApp_res env of
        Inl e \<Rightarrow> []
      | Inr app \<Rightarrow>
          [(BeforeBuild, ext (beforeBuild_res env))]
          @ (if emptyOutputDir (app_config app)
             then [(EmptyOutputDir, ext (emptyDir_res env))] else [])
          @ [(RunWebpack, forget (runWebpack env)),
             (ExecuteQueries, ext (executeQueries_res env)),
             (RenderHTML,
              case compiler_res env of
                Inl e \<Rightarrow> ([], Inl e, [])
              | Inr stats_hash \<Rightarrow>
                  renderHTML env (createRenderQueue_res env)
                    (hashString (app_config app) stats_hash)),
             (ProcessFiles, processFiles env (files_queue app)),
             (ProcessImages, processImages env (images_queue app) (app_config app))]
          @ (if staticDir_exists env
             then [(CopyStatic,
                    ext (copy_res env (staticDir (app_config app)) (outputDir (app_config app))))]
             else [])
          @ [(AfterBuild, ext (afterBuild_res env)),
             (RemoveManifests, ext (removeManifests_res env))])"

text \<open>The events of a stage that has run to its end: its call, its work, its return.\<close>

definition segment :: "stage \<times> unit run \<Rightarrow> event list" where
  "segment p = Begin (fst p) # fst (snd p) @ [End (fst p)]"

text \<open>Stages run with a barrier between them, as the specification orders them: a stage
  begins when the one before it has resolved, and the first rejection ends the run.\<close>

fun barrier_run :: "(stage \<times> unit run) list \<Rightarrow> unit run" where
  "barrier_run [] = ([], Inr (), [])"
| "barrier_run (p # rest) = bind_run (await (fst p) (snd p)) (\<lambda>u. barrier_run rest)"

text \<open>The sample environment with an output directory that cannot be written to.\<close>

definition unwritable_env :: env where
  "unwritable_env = sample_env\<lparr>copy_res := (\<lambda>src dest. Some ''EACCES'')\<rparr>"

section \<open>Properties\<close>

subsection \<open>Chunking\<close>

lemma chunk_Nil [simp]: "chunk [] n = []"
  by (simp add: chunk.simps)

lemma chunk_step: "xs \<noteq> [] \<Longrightarrow> 0 < n \<Longrightarrow> chunk xs n = take n xs # chunk (drop n xs) n"
  by (subst chunk.simps) simp

lemma concat_chunk: "0 < n \<Longrightarrow> concat (chunk xs n) = xs"
proof (induction xs n rule: chunk.induct)
  case (1 array n)
  show ?case
  proof (cases "array = []")
    case True
    then show ?thesis by simp
  next
    case False
    with 1 have "concat (chunk (drop n array) n) = drop n array" by simp
    moreover from False 1(2) have "chunk array n = take n array # chunk (drop n array) n"
      by (rule chunk_step)
    ultimately show ?thesis by simp
  qed
qed

lemma length_chunk: "0 < n \<Longrightarrow> length (chunk xs n) = (length xs + n - 1) div n"
proof (induction xs n rule: chunk.induct)
  case (1 array n)
  show ?case
  proof (cases "array = []")
    case True
    with 1 show ?thesis by simp
  next
    case False
    with 1 have ih: "length (chunk (drop n array) n) = (length (drop n array) + n - 1) div n"
      by simp
    from False 1(2) have st: "chunk array n = take n array # chunk (drop n array) n"
      by (rule chunk_step)
    show ?thesis
    proof (cases "length array \<le> n")
      case True
      from False obtain m where "length array = Suc m" by (cases array) auto
      with True 1(2) have "n * 1 \<le> length array + n - 1" "length array + n - 1 < n * Suc 1"
        by simp_all
      then have "(length array + n - 1) div n = 1"
        by (rule div_nat_eqI)
      with True st show ?thesis by simp
    next
      case b: False
      then have "length array + n - 1 = (length array - n + n - 1) + n" by simp
      then have "(length array + n - 1) div n = Suc ((length array - n + n - 1) div n)"
        using 1(2) by (simp only: div_add_self2)
      with st ih show ?thesis by simp
    qed
  qed
qed

lemma nth_chunk: "0 < n \<Longrightarrow> i < length (chunk xs n) \<Longrightarrow> chunk xs n ! i = take n (drop (i * n) xs)"
proof (induction xs n arbitrary: i rule: chunk.induct)
  case (1 array n)
  show ?case
  proof (cases "array = []")
    case True
    with 1 show ?thesis by simp
  next
    case False
    from False 1(2) have st: "chunk array n = take n array # chunk (drop n array) n"
      by (rule chunk_step)
    show ?thesis
    proof (cases i)
      case 0
      with st show ?thesis by simp
    next
      case (Suc j)
      with 1(3) st have "j < length (chunk (drop n array) n)" by simp
      with False 1 have "chunk (drop n array) n ! j = take n (drop (j * n) (drop n array))"
        by simp
      with st Suc show ?thesis by (simp add: add.commute)
    qed
  qed
qed

lemma up_div: "0 < (b::int) \<Longrightarrow> - (- a div b) = (a + b - 1) div b"
proof -
  assume b: "0 < b"
  have "(a + b - 1) div b = (if a mod b = 0 then a div b else a div b + 1)"
  proof (cases "a mod b = 0")
    case True
    then obtain k where k: "a = b * k" by auto
    have "a + b - 1 = b * k + (b - 1)" using k by simp
    then have "(a + b - 1) div b = k"
      by (rule int_div_pos_eq) (use b in auto)
    with k b True show ?thesis by simp
  next
    case False
    have "0 \<le> a mod b" "a mod b < b" using b by simp_all
    with False have r: "0 \<le> a mod b - 1" "a mod b - 1 < b" by auto
    have "a + b - 1 = b * (a div b + 1) + (a mod b - 1)"
      by (simp add: algebra_simps)
    then have "(a + b - 1) div b = a div b + 1"
      using r by (rule int_div_pos_eq)
    with False show ?thesis by simp
  qed
  moreover have "- a div b = (if a mod b = 0 then - (a div b) else - (a div b) - 1)"
    using b by (simp add: zdiv_zminus1_eq_if)
  ultimately show ?thesis by simp
qed

lemma ceil_div: "0 < n \<Longrightarrow> int ((L + n - 1) div n) = \<lceil>(of_nat L :: rat) / of_nat n\<rceil>"
proof -
  assume n: "0 < n"
  have "\<lceil>(of_nat L :: rat) / of_nat n\<rceil> = \<lceil>(of_int (int L) :: rat) / of_int (int n)\<rceil>" by simp
  also have "\<dots> = - (- int L div int n)" by (rule ceiling_divide_eq_div)
  also have "\<dots> = (int L + int n - 1) div int n"
    using n by (simp add: up_div)
  also have "\<dots> = int ((L + n - 1) div n)"
    using n by (simp add: zdiv_int of_nat_diff)
  finally show ?thesis by simp
qed

lemma div_up:
  fixes L s :: nat
  assumes s: "0 < s"
  shows "(L + s - 1) div s = L div s + (if L mod s = 0 then 0 else 1)"
proof -
  define q where "q = L div s"
  define r where "r = L mod s"
  have L: "L = s * q + r" by (simp add: q_def r_def)
  have r: "r < s" using s by (simp add: r_def)
  show ?thesis
  proof (cases "r = 0")
    case True
    with L s have "s * q \<le> L + s - 1" "L + s - 1 < s * Suc q" by simp_all
    then have "(L + s - 1) div s = q" by (rule div_nat_eqI)
    with True show ?thesis by (simp add: q_def r_def)
  next
    case False
    with L r have "s * Suc q \<le> L + s - 1" "L + s - 1 < s * Suc (Suc q)" by simp_all
    then have "(L + s - 1) div s = Suc q" by (rule div_nat_eqI)
    with False show ?thesis by (simp add: q_def r_def)
  qed
qed

lemma last_size:
  fixes L i s :: nat
  assumes s: "0 < s" and i: "i < (L + s - 1) div s"
  shows "min s (L - i * s) = (if Suc i < (L + s - 1) div s then s else if L mod s = 0 then s else L mod s)"
proof -
  define q where "q = L div s"
  define r where "r = L mod s"
  have L: "L = s * q + r" by (simp add: q_def r_def)
  have r: "r < s" using s by (simp add: r_def)
  have n: "(L + s - 1) div s = q + (if r = 0 then 0 else 1)"
    unfolding q_def r_def using s by (rule div_up)
  show ?thesis
  proof (cases "Suc i < (L + s - 1) div s")
    case True
    with n have "Suc i \<le> q" by (simp split: if_splits)
    then have "s * Suc i \<le> s * q" by (rule mult_le_mono2)
    with L have "s \<le> L - i * s" by (simp add: mult.commute)
    with True show ?thesis by simp
  next
    case False
    with i have e: "Suc i = (L + s - 1) div s" by simp
    show ?thesis
    proof (cases "r = 0")
      case True
      with e n have "q = Suc i" by simp
      with L True have "L - i * s = s" by (simp add: mult.commute)
      with False True show ?thesis by (simp add: r_def)
    next
      case r0: False
      with e n have "q = i" by simp
      with L have "L - i * s = r" by (simp add: mult.commute)
      with False r0 r show ?thesis by (simp add: r_def)
    qed
  qed
qed
text \<open>C2: chunking with size 350 (HTML stage) or 25 (image stage) gives
  \<open>\<lceil>L / size\<rceil>\<close> chunks; every chunk but the last has the fixed size, the last one has
  \<open>L mod size\<close> entries if that is not zero and the fixed size otherwise; the chunks
  concatenated in order are the queue.\<close>

theorem chunk_sizes:
  assumes "s = 350 \<or> s = 25"
  shows "int (length (chunk q s)) = \<lceil>rat_of_nat (length q) / rat_of_nat s\<rceil> \<and>
    concat (chunk q s) = q \<and>
    (\<forall>i < length (chunk q s).
       length (chunk q s ! i) =
         (if Suc i < length (chunk q s) then s
          else if length q mod s = 0 then s else length q mod s))"
proof -
  from assms have s: "0 < s" by auto
  have n: "length (chunk q s) = (length q + s - 1) div s"
    using s by (rule length_chunk)
  have "length (chunk q s ! i) =
         (if Suc i < length (chunk q s) then s
          else if length q mod s = 0 then s else length q mod s)"
    if i: "i < length (chunk q s)" for i
  proof -
    from i s have "length (chunk q s ! i) = min s (length q - i * s)"
      by (simp add: nth_chunk min.commute)
    moreover from i n have "i < (length q + s - 1) div s" by simp
    ultimately show ?thesis
      unfolding n using s by (simp only: last_size)
  qed
  moreover have "int (length (chunk q s)) = \<lceil>rat_of_nat (length q) / rat_of_nat s\<rceil>"
    unfolding n using s by (rule ceil_div)
  moreover have "concat (chunk q s) = q"
    using s by (rule concat_chunk)
  ultimately show ?thesis by blast
qed

theorem chunk_sizes_witness:
  "((25::nat) = 350 \<or> (25::nat) = 25) \<and>
   length (chunk (replicate 60 ()) 25) = 3 \<and>
   concat (chunk (replicate 60 ()) 25) = replicate 60 () \<and>
   map length (chunk (replicate 60 ()) 25) = [25, 25, 10]"
proof -
  have h: "(25::nat) = 350 \<or> (25::nat) = 25" by simp
  note t = chunk_sizes [OF h, of "replicate 60 ()"]
  have "\<lceil>rat_of_nat (length (replicate 60 ())) / rat_of_nat 25\<rceil> = 3"
    by (rule ceiling_unique) simp_all
  with t have n: "length (chunk (replicate 60 ()) 25) = 3" by simp
  from t have "\<forall>i < length (chunk (replicate 60 ()) 25).
       length (chunk (replicate 60 ()) 25 ! i) =
         (if Suc i < length (chunk (replicate 60 ()) 25) then 25
          else if length (replicate 60 ()) mod 25 = 0 then 25 else length (replicate 60 ()) mod 25)"
    by blast
  with n have "length (chunk (replicate 60 ()) 25 ! 0) = 25"
    "length (chunk (replicate 60 ()) 25 ! 1) = 25"
    "length (chunk (replicate 60 ()) 25 ! 2) = 10" by simp_all
  with n have "map length (chunk (replicate 60 ()) 25) = [25, 25, 10]"
    by (simp add: list_eq_iff_nth_eq less_Suc_eq numeral_3_eq_3 numeral_2_eq_2)
  with h t n show ?thesis by simp
qed

subsection \<open>Projections\<close>

lemma removed_append [simp]: "removed (xs @ ys) = removed xs @ removed ys"
  by (induction xs rule: removed.induct) simp_all

lemma readdirs_append [simp]: "readdirs (xs @ ys) = readdirs xs @ readdirs ys"
  by (induction xs rule: readdirs.induct) simp_all

lemma dispatched_append [simp]: "dispatched (xs @ ys) = dispatched xs @ dispatched ys"
  by (induction xs rule: dispatched.induct) simp_all

lemma rendered_append [simp]: "rendered (xs @ ys) = rendered xs @ rendered ys"
  by (induction xs rule: rendered.induct) simp_all

lemma ends_append [simp]: "ends (xs @ ys) = ends xs @ ends ys"
  by (induction xs rule: ends.induct) simp_all

lemma failures_append [simp]: "failures (xs @ ys) = failures xs @ failures ys"
  by (induction xs rule: failures.induct) simp_all

lemma completions_append [simp]: "completions (xs @ ys) = completions xs @ completions ys"
  by (induction xs rule: completions.induct) simp_all

lemma markers_append [simp]: "markers (xs @ ys) = markers xs @ markers ys"
  by (induction xs rule: markers.induct) simp_all

lemma set_removed: "(d, f) \<in> set (removed evs) \<longleftrightarrow> Remove d f \<in> set evs"
  by (induction evs rule: removed.induct) auto

lemma set_readdirs: "d \<in> set (readdirs evs) \<longleftrightarrow> ReadDir d \<in> set evs"
  by (induction evs rule: readdirs.induct) auto

lemma set_dispatched: "c \<in> set (dispatched evs) \<longleftrightarrow> WorkerProcess c \<in> set evs"
  by (induction evs rule: dispatched.induct) auto

lemma set_rendered: "(h, p) \<in> set (rendered evs) \<longleftrightarrow> WorkerRender h p \<in> set evs"
  by (induction evs rule: rendered.induct) auto

lemma set_failures: "(i, e) \<in> set (failures evs) \<longleftrightarrow> Settled i (Some e) \<in> set evs"
  by (induction evs rule: failures.induct) auto

lemma set_markers: "ev \<in> set (markers evs) \<longleftrightarrow> ev \<in> set evs \<and> (\<exists>s. ev = Begin s \<or> ev = End s)"
  by (induction evs rule: markers.induct) auto

subsection \<open>The mapper\<close>

lemma pMap_stragglers_events:
  "ev \<in> set (pMap_stragglers res cont sched inflight st) \<Longrightarrow>
     (\<exists>i r. ev = Settled i r) \<or> (\<exists>s. ev \<in> set (snd (cont s)))"
proof (induction res cont sched inflight st rule: pMap_stragglers.induct)
  case (1 res cont sched inflight st)
  from "1.prems" show ?case
    by (subst (asm) pMap_stragglers.simps)
      (auto simp: Let_def split: if_splits option.splits dest: "1.IH")
qed

lemma pMap_loop_events:
  "ev \<in> set (run_events (pMap_loop call res cont sched pending inflight st)) \<Longrightarrow>
     (\<exists>i r. ev = Settled i r) \<or> (\<exists>s. ev \<in> set (snd (cont s)))
     \<or> (\<exists>x \<in> set pending. ev \<in> set (call (snd x)))"
proof (induction call res cont sched pending inflight st rule: pMap_loop.induct)
  case (1 call res cont sched pending inflight st)
  show ?case
  proof (cases "inflight = []")
    case True
    with "1.prems" show ?thesis
      by (subst (asm) pMap_loop.simps) (simp add: run_events_def)
  next
    case False
    define k where "k = pick sched (length inflight)"
    define i where "i = inflight ! k"
    show ?thesis
    proof (cases "res i")
      case (Some e)
      with False "1.prems" show ?thesis
        by (subst (asm) pMap_loop.simps)
          (auto simp: run_events_def Let_def k_def i_def dest: pMap_stragglers_events)
    next
      case None
      obtain pre r post where rec: "pMap_loop call res cont (tl sched) (tl pending)
          (without k inflight @ map fst (take 1 pending)) (fst (cont st)) = (pre, r, post)"
        by (cases "pMap_loop call res cont (tl sched) (tl pending)
          (without k inflight @ map fst (take 1 pending)) (fst (cont st))") auto
      have ih: "ev \<in> set (pre @ post) \<Longrightarrow>
          (\<exists>i r. ev = Settled i r) \<or> (\<exists>s. ev \<in> set (snd (cont s)))
          \<or> (\<exists>x \<in> set (tl pending). ev \<in> set (call (snd x)))"
        using "1.IH" [OF False k_def i_def refl None] rec
        by (simp add: run_events_def k_def)
      have "pMap_loop call res cont sched pending inflight st =
          (Settled i None # snd (cont st) @ concat (map (call \<circ> snd) (take 1 pending)) @ pre, r, post)"
        using False None rec
        by (subst pMap_loop.simps) (simp add: Let_def k_def i_def)
      with "1.prems" have "ev = Settled i None \<or> ev \<in> set (snd (cont st))
          \<or> ev \<in> set (concat (map (call \<circ> snd) (take 1 pending))) \<or> ev \<in> set (pre @ post)"
        by (auto simp: run_events_def)
      then show ?thesis
        using ih by (cases pending) (auto dest: list.set_sel(2))
    qed
  qed
qed


lemma pMap_stragglers_Nil [simp]: "pMap_stragglers res cont sched [] st = []"
  by (subst pMap_stragglers.simps) simp

lemma pMap_stragglers_fail:
  "inflight \<noteq> [] \<Longrightarrow> res (inflight ! pick sched (length inflight)) = Some e \<Longrightarrow>
   pMap_stragglers res cont sched inflight st =
     Settled (inflight ! pick sched (length inflight)) (Some e)
       # pMap_stragglers res cont (tl sched) (without (pick sched (length inflight)) inflight) st"
  by (subst pMap_stragglers.simps) (simp add: Let_def)

lemma pMap_stragglers_ok:
  "inflight \<noteq> [] \<Longrightarrow> res (inflight ! pick sched (length inflight)) = None \<Longrightarrow>
   pMap_stragglers res cont sched inflight st =
     Settled (inflight ! pick sched (length inflight)) None # snd (cont st)
       @ pMap_stragglers res cont (tl sched) (without (pick sched (length inflight)) inflight)
           (fst (cont st))"
  by (subst pMap_stragglers.simps) (simp add: Let_def)

lemma pMap_loop_Nil [simp]: "pMap_loop call res cont sched pending [] st = ([], Inr (), [])"
  by (subst pMap_loop.simps) simp

lemma pMap_loop_fail:
  "inflight \<noteq> [] \<Longrightarrow> res (inflight ! pick sched (length inflight)) = Some e \<Longrightarrow>
   pMap_loop call res cont sched pending inflight st =
     ([Settled (inflight ! pick sched (length inflight)) (Some e)], Inl e,
      pMap_stragglers res cont (tl sched) (without (pick sched (length inflight)) inflight) st)"
  by (subst pMap_loop.simps) (simp add: Let_def)

lemma pMap_loop_ok:
  "inflight \<noteq> [] \<Longrightarrow> res (inflight ! pick sched (length inflight)) = None \<Longrightarrow>
   pMap_loop call res cont (tl sched) (tl pending)
     (without (pick sched (length inflight)) inflight @ map fst (take 1 pending)) (fst (cont st))
     = (pre, r, post) \<Longrightarrow>
   pMap_loop call res cont sched pending inflight st =
     (Settled (inflight ! pick sched (length inflight)) None # snd (cont st)
        @ concat (map (call \<circ> snd) (take 1 pending)) @ pre, r, post)"
  by (subst pMap_loop.simps) (simp add: Let_def)

text \<open>The mapper resolves only when every call has resolved, and rejects at the first
  call that rejects; what is left then are the calls in flight.\<close>

lemma pMap_loop_result:
  assumes c: "\<And>x. failures (call x) = []" and k: "\<And>s. failures (snd (cont s)) = []"
  shows "case pMap_loop call res cont sched pending inflight st of
           (pre, Inr u, post) \<Rightarrow> failures pre = [] \<and> post = []
         | (pre, Inl e, post) \<Rightarrow>
             (\<exists>pre0 i. pre = pre0 @ [Settled i (Some e)] \<and> failures pre0 = []) \<and>
             (\<exists>sched' inflight' st'. post = pMap_stragglers res cont sched' inflight' st')"
  using assms
proof (induction call res cont sched pending inflight st rule: pMap_loop.induct)
  case (1 call res cont sched pending inflight st)
  note c = "1.prems"(1) and k = "1.prems"(2)
  show ?case
  proof (cases "inflight = []")
    case True
    then show ?thesis by simp
  next
    case False
    show ?thesis
    proof (cases "res (inflight ! pick sched (length inflight))")
      case (Some e)
      have "\<exists>pre0 i. [Settled (inflight ! pick sched (length inflight)) (Some e)]
             = pre0 @ [Settled i (Some e)] \<and> failures pre0 = []"
        by (rule exI [of _ "[]"]) simp
      then show ?thesis
        using False Some by (simp add: pMap_loop_fail) blast
    next
      case None
      obtain pre r post where rec: "pMap_loop call res cont (tl sched) (tl pending)
          (without (pick sched (length inflight)) inflight @ map fst (take 1 pending))
          (fst (cont st)) = (pre, r, post)"
        using prod_cases3 by blast
      note ih = "1.IH" [OF False refl refl refl None c k, unfolded rec, simplified]
      have st: "pMap_loop call res cont sched pending inflight st =
          (Settled (inflight ! pick sched (length inflight)) None # snd (cont st)
            @ concat (map (call \<circ> snd) (take 1 pending)) @ pre, r, post)"
        using False None rec by (rule pMap_loop_ok)
      show ?thesis
      proof (cases r)
        case (Inl e)
        with ih obtain pre0 i where p: "pre = pre0 @ [Settled i (Some e)]" "failures pre0 = []"
          and q: "\<exists>sched' inflight' st'. post = pMap_stragglers res cont sched' inflight' st'"
          by auto
        let ?h = "Settled (inflight ! pick sched (length inflight)) None # snd (cont st)
            @ concat (map (call \<circ> snd) (take 1 pending))"
        have "failures ?h = []"
          by (cases pending) (simp_all add: c k)
        with p have "?h @ pre = (?h @ pre0) @ [Settled i (Some e)] \<and> failures (?h @ pre0) = []"
          by simp
        then have "\<exists>pre0' i. ?h @ pre = pre0' @ [Settled i (Some e)] \<and> failures pre0' = []"
          by blast
        with q Inl show ?thesis by (simp add: st)
      next
        case (Inr u)
        with ih have "failures pre = []" "post = []" by auto
        moreover have "failures (concat (map (call \<circ> snd) (take 1 pending))) = []"
          by (cases pending) (simp_all add: c)
        ultimately show ?thesis using Inr by (simp add: st k)
      qed
    qed
  qed
qed

lemma pMap_events:
  assumes "ev \<in> set (run_events (pMap call res cont sched items concurrency st))"
  shows "(\<exists>i r. ev = Settled i r) \<or> (\<exists>s. ev \<in> set (snd (cont s))) \<or> (\<exists>x. ev \<in> set (call x))"
proof (cases "concurrency < 1")
  case True
  with assms show ?thesis by (simp add: pMap_def run_events_def)
next
  case False
  define indexed where "indexed = zip [0..<length items] items"
  obtain pre r post where rec: "pMap_loop call res cont sched (drop concurrency indexed)
      (map fst (take concurrency indexed)) st = (pre, r, post)"
    using prod_cases3 by blast
  with False have "pMap call res cont sched items concurrency st =
      (concat (map (call \<circ> snd) (take concurrency indexed)) @ pre, r, post)"
    by (simp add: pMap_def indexed_def)
  with assms have "ev \<in> set (concat (map (call \<circ> snd) (take concurrency indexed)))
      \<or> ev \<in> set (run_events (pMap_loop call res cont sched (drop concurrency indexed)
      (map fst (take concurrency indexed)) st))"
    by (auto simp: run_events_def rec)
  then show ?thesis
    by (auto dest: pMap_loop_events)
qed

lemma failures_concat_calls:
  "(\<And>x. failures (call x) = []) \<Longrightarrow> failures (concat (map (call \<circ> snd) xs)) = []"
  by (induction xs) simp_all

lemma pMap_result:
  assumes c: "\<And>x. failures (call x) = []" and k: "\<And>s. failures (snd (cont s)) = []"
  shows "case pMap call res cont sched items concurrency st of
           (pre, Inr u, post) \<Rightarrow> failures pre = [] \<and> post = []
         | (pre, Inl e, post) \<Rightarrow>
             (pre = [] \<and> post = [] \<and> concurrency < 1) \<or>
             (\<exists>pre0 i. pre = pre0 @ [Settled i (Some e)] \<and> failures pre0 = []) \<and>
             (\<exists>sched' inflight' st'. post = pMap_stragglers res cont sched' inflight' st')"
proof (cases "concurrency < 1")
  case True
  then show ?thesis by (simp add: pMap_def)
next
  case False
  define indexed where "indexed = zip [0..<length items] items"
  define started where "started = concat (map (call \<circ> snd) (take concurrency indexed))"
  obtain pre r post where rec: "pMap_loop call res cont sched (drop concurrency indexed)
      (map fst (take concurrency indexed)) st = (pre, r, post)"
    using prod_cases3 by blast
  with False have p: "pMap call res cont sched items concurrency st = (started @ pre, r, post)"
    by (simp add: pMap_def indexed_def started_def)
  have s: "failures started = []"
    unfolding started_def using c by (rule failures_concat_calls)
  note l = pMap_loop_result [of call cont res sched "drop concurrency indexed"
      "map fst (take concurrency indexed)" st, OF c k, unfolded rec, simplified]
  show ?thesis
  proof (cases r)
    case (Inl e)
    with l obtain pre0 i where "pre = pre0 @ [Settled i (Some e)]" "failures pre0 = []"
      and q: "\<exists>sched' inflight' st'. post = pMap_stragglers res cont sched' inflight' st'"
      by auto
    with s have "started @ pre = (started @ pre0) @ [Settled i (Some e)] \<and>
        failures (started @ pre0) = []" by simp
    then have "\<exists>pre0' i. started @ pre = pre0' @ [Settled i (Some e)] \<and> failures pre0' = []"
      by blast
    with q Inl show ?thesis by (simp add: p)
  next
    case (Inr u)
    with l s show ?thesis by (simp add: p)
  qed
qed

subsection \<open>Removing the unused images\<close>

lemma remove_all_events:
  "ev \<in> set (fst (remove_all env dir names)) \<Longrightarrow> \<exists>f \<in> set names. ev = Remove dir f"
  by (induction names arbitrary: ev) (auto split: option.splits prod.splits)

lemma remove_all_resolved:
  "snd (remove_all env dir names) = Inr u \<Longrightarrow>
   fst (remove_all env dir names) = map (Remove dir) names"
  by (induction names) (auto split: option.splits prod.splits)

lemma remove_all_ok:
  "\<forall>f \<in> set names. remove_res env f = None \<Longrightarrow>
   remove_all env dir names = (map (Remove dir) names, Inr ())"
  by (induction names) auto

lemma removed_map_Remove [simp]: "removed (map (Remove dir) names) = map (Pair dir) names"
  by (induction names) simp_all

lemma extraImages_eq:
  "extraImages existingImages queue =
     filter (\<lambda>f. f \<notin> basename ` destPath ` set queue) existingImages"
  by (auto simp: extraImages_def newImages_def intro!: filter_cong)

lemma removeUnusedImages_events:
  "ev \<in> set (fst (removeUnusedImages env cfg existingImages queue)) \<Longrightarrow>
     (\<exists>f \<in> set (extraImages existingImages queue). ev = Remove (imagesDir cfg) f)
     \<or> (\<exists>n. ev = Log (RemovedImages n))"
proof -
  assume a: "ev \<in> set (fst (removeUnusedImages env cfg existingImages queue))"
  obtain evs r where r: "remove_all env (imagesDir cfg) (extraImages existingImages queue) = (evs, r)"
    by (cases "remove_all env (imagesDir cfg) (extraImages existingImages queue)") auto
  then have "ev \<in> set evs \<Longrightarrow> \<exists>f \<in> set (extraImages existingImages queue). ev = Remove (imagesDir cfg) f"
    using remove_all_events [of ev env "imagesDir cfg" "extraImages existingImages queue"] by simp
  with a r show ?thesis
    by (auto simp: removeUnusedImages_def split: if_splits sum.splits)
qed

lemma removeUnusedImages_resolved:
  assumes "removeUnused cfg" and "snd (removeUnusedImages env cfg existingImages queue) = Inr u"
  shows "removed (fst (removeUnusedImages env cfg existingImages queue)) =
     map (Pair (imagesDir cfg)) (extraImages existingImages queue)"
proof (cases "existingImages \<noteq> [] \<and> extraImages existingImages queue \<noteq> []")
  case True
  with assms show ?thesis
    using remove_all_resolved [of env "imagesDir cfg" "extraImages existingImages queue"]
    by (auto simp: removeUnusedImages_def split: prod.splits sum.splits)
next
  case False
  then have "extraImages existingImages queue = []"
    by (auto simp: extraImages_def)
  with False show ?thesis
    by (auto simp: removeUnusedImages_def)
qed

lemma removeUnusedImages_ok:
  assumes "\<forall>f \<in> set existingImages. remove_res env f = None"
  shows "snd (removeUnusedImages env cfg existingImages queue) = Inr ()"
proof -
  have "\<forall>f \<in> set (extraImages existingImages queue). remove_res env f = None"
    using assms by (simp add: extraImages_def)
  then have "remove_all env (imagesDir cfg) (extraImages existingImages queue) =
      (map (Remove (imagesDir cfg)) (extraImages existingImages queue), Inr ())"
    by (rule remove_all_ok)
  then show ?thesis
    by (simp add: removeUnusedImages_def)
qed

subsection \<open>The image stage\<close>

lemma image_mapper_events:
  assumes "ev \<in> set (run_events (pMap (\<lambda>c. [WorkerProcess c]) res
      (\<lambda>progress. (Suc progress, [WriteLine (Processing t (percent (Suc progress) n))]))
      sched items concurrency st))"
  shows "(\<exists>i r. ev = Settled i r) \<or> (\<exists>c. ev = WorkerProcess c)
      \<or> (\<exists>p. ev = WriteLine (Processing t p))"
  using pMap_events [OF assms] by auto

lemma image_stragglers_events:
  assumes "ev \<in> set (pMap_stragglers res
      (\<lambda>progress. (Suc progress, [WriteLine (Processing t (percent (Suc progress) n))]))
      sched inflight st)"
  shows "(\<exists>i r. ev = Settled i r) \<or> (\<exists>p. ev = WriteLine (Processing t p))"
  using pMap_stragglers_events [OF assms] by auto

lemma no_removed: "(\<And>d f. Remove d f \<notin> set evs) \<Longrightarrow> removed evs = []"
  using set_removed [of _ _ evs] by (cases "removed evs") (auto simp del: set_removed)

lemma no_readdirs: "(\<And>d. ReadDir d \<notin> set evs) \<Longrightarrow> readdirs evs = []"
  using set_readdirs [of _ evs] by (cases "readdirs evs") auto

lemma no_dispatched: "(\<And>c. WorkerProcess c \<notin> set evs) \<Longrightarrow> dispatched evs = []"
  using set_dispatched [of _ evs] by (cases "dispatched evs") auto

lemma no_rendered: "(\<And>h p. WorkerRender h p \<notin> set evs) \<Longrightarrow> rendered evs = []"
  using set_rendered [of _ _ evs] by (cases "rendered evs") auto

lemma no_failures: "(\<And>i e. Settled i (Some e) \<notin> set evs) \<Longrightarrow> failures evs = []"
  using set_failures [of _ _ evs] by (cases "failures evs") auto

lemma no_markers: "(\<And>s. Begin s \<notin> set evs \<and> End s \<notin> set evs) \<Longrightarrow> markers evs = []"
  using set_markers [of _ evs] by (cases "markers evs") (simp, metis list.set_intros(1))


lemma readExisting_cases:
  "readExisting env cfg = ([], Inr []) \<and> emptyOutputDir cfg \<or>
   readExisting env cfg = ([ReadDir (imagesDir cfg)], readdir_res env) \<and> \<not> emptyOutputDir cfg"
  by (simp add: readExisting_def)

lemma processImages_cases [case_names Unread Rejected Resolved]:
  obtains
    (Unread) rd e where
      "readExisting env cfg = (rd, Inl e)"
      "processImages env queue cfg = (CreateWorker ''image-processor'' # rd, Inl e, [])"
  | (Rejected) rd existingImages pre e post where
      "readExisting env cfg = (rd, Inr existingImages)"
      "pMap (\<lambda>c. [WorkerProcess c]) (process_res env)
         (\<lambda>progress. (Suc progress,
            [WriteLine (Processing (length queue)
               (percent (Suc progress) (length (chunk queue 25))))]))
         (process_order env) (chunk queue 25) (cpus_logical env) 0 = (pre, Inl e, post)"
      "processImages env queue cfg =
         (CreateWorker ''image-processor'' # rd @ WriteLine (Processing (length queue) 0) # pre
            @ [WorkerEnd ''image-processor''], Inl e, post)"
  | (Resolved) rd existingImages pre post evs r where
      "readExisting env cfg = (rd, Inr existingImages)"
      "pMap (\<lambda>c. [WorkerProcess c]) (process_res env)
         (\<lambda>progress. (Suc progress,
            [WriteLine (Processing (length queue)
               (percent (Suc progress) (length (chunk queue 25))))]))
         (process_order env) (chunk queue 25) (cpus_logical env) 0 = (pre, Inr (), post)"
      "removeUnusedImages env cfg existingImages queue = (evs, r)"
      "processImages env queue cfg =
         (CreateWorker ''image-processor'' # rd @ WriteLine (Processing (length queue) 0) # pre
            @ [WorkerEnd ''image-processor'', WriteLine (Processed (length queue))] @ evs, r, post)"
proof -
  obtain rd x where rd: "readExisting env cfg = (rd, x)"
    by (cases "readExisting env cfg") auto
  show thesis
  proof (cases x)
    case (Inl e)
    with rd show thesis
      by (intro Unread [of rd e]) (simp_all add: processImages_def Let_def)
  next
    case ex: (Inr existingImages)
    obtain pre y post where pm: "pMap (\<lambda>c. [WorkerProcess c]) (process_res env)
         (\<lambda>progress. (Suc progress,
            [WriteLine (Processing (length queue)
               (percent (Suc progress) (length (chunk queue 25))))]))
         (process_order env) (chunk queue 25) (cpus_logical env) 0 = (pre, y, post)"
      using prod_cases3 by blast
    show thesis
    proof (cases y)
      case (Inl e)
      with rd ex pm show thesis
        by (intro Rejected [of rd existingImages pre e post]) (simp_all add: processImages_def Let_def)
    next
      case (Inr u)
      obtain evs r where "removeUnusedImages env cfg existingImages queue = (evs, r)"
        by (cases "removeUnusedImages env cfg existingImages queue") auto
      with Inr rd ex pm show thesis
        by (intro Resolved [of rd existingImages pre post evs r]) (simp_all add: processImages_def Let_def)
    qed
  qed
qed

lemma chunk_short:
  assumes "xs \<noteq> []" and "length xs \<le> n"
  shows "chunk xs n = [xs]"
proof -
  from assms have "0 < n" by (cases xs) auto
  with assms(1) have "chunk xs n = take n xs # chunk (drop n xs) n"
    by (rule chunk_step)
  also from assms(2) have "\<dots> = [xs]" by simp
  finally show ?thesis .
qed

lemma percent_div:
  assumes "0 < n"
  shows "percent p n = (200 * int p + int n) div (2 * int n)"
proof -
  have "rat_of_nat (p * 100) / rat_of_nat n + 1 / 2 =
      rat_of_int (200 * int p + int n) / rat_of_int (2 * int n)"
    using assms by (simp add: field_simps)
  then show ?thesis
    unfolding percent_def Math_round_def by (simp only: floor_divide_of_int_eq)
qed

lemma sample_basenames: "newImages sample_images = [''a.png'', ''d.png'']"
  by (simp add: newImages_def sample_images_def basename_def)

lemma sample_chunks: "chunk sample_images 25 = [sample_images]"
  by (rule chunk_short) (simp_all add: sample_images_def)

lemma pick_Nil [simp]: "pick [] n = 0"
  by (simp add: pick_def)

lemma without_0 [simp]: "without 0 (x # xs) = xs"
  by (simp add: without_def)

lemma pMap_single:
  "0 < concurrency \<Longrightarrow> res 0 = None \<Longrightarrow>
   pMap call res cont sched [x] concurrency st =
     (call x @ Settled 0 None # snd (cont st), Inr (), [])"
proof -
  assume a: "0 < concurrency" "res 0 = None"
  have "pMap_loop call res cont sched [] [0] st = (Settled 0 None # snd (cont st), Inr (), [])"
    using a(2) by (subst pMap_loop.simps) (simp add: pick_def without_def split: list.splits)
  moreover from a(1) have "take concurrency [(0::nat, x)] = [(0, x)]"
    by (cases concurrency) simp_all
  ultimately show ?thesis
    using a(1) by (simp add: pMap_def)
qed

lemma sample_processImages:
  "processImages sample_env sample_images sample_config =
     ([CreateWorker ''image-processor'', ReadDir ''dist/assets/static'',
       WriteLine (Processing 2 0), WorkerProcess sample_images, Settled 0 None,
       WriteLine (Processing 2 100), WorkerEnd ''image-processor'', WriteLine (Processed 2),
       Remove ''dist/assets/static'' ''b.png'', Remove ''dist/assets/static'' ''c.png'',
       Log (RemovedImages 2)], Inr (), [])"
  apply (simp add: processImages_def sample_chunks Let_def readExisting_def sample_env_def sample_config_def pMap_single
     removeUnusedImages_def extraImages_def sample_basenames percent_div)
  apply (simp add: sample_images_def)
  done


lemma set_ends: "w \<in> set (ends evs) \<longleftrightarrow> WorkerEnd w \<in> set evs"
  by (induction evs rule: ends.induct) auto

lemma no_ends: "(\<And>w. WorkerEnd w \<notin> set evs) \<Longrightarrow> ends evs = []"
  using set_ends [of _ evs] by (cases "ends evs") auto

lemma image_mapper_quiet:
  assumes "pMap (\<lambda>c. [WorkerProcess c]) res
      (\<lambda>progress. (Suc progress, [WriteLine (Processing t (percent (Suc progress) n))]))
      sched items concurrency st = (pre, r, post)"
  shows "removed pre = []" "removed post = []" "readdirs pre = []" "readdirs post = []"
    "ends pre = []" "ends post = []" "rendered pre = []" "rendered post = []"
    "markers pre = []" "markers post = []"
proof -
  have "(\<exists>i r. ev = Settled i r) \<or> (\<exists>c. ev = WorkerProcess c)
      \<or> (\<exists>p. ev = WriteLine (Processing t p))" if "ev \<in> set pre \<union> set post" for ev
    using that image_mapper_events [of ev res t n sched items concurrency st]
    by (simp add: assms run_events_def)
  then have a: "\<And>ev. ev \<in> set pre \<Longrightarrow> (\<exists>i r. ev = Settled i r) \<or> (\<exists>c. ev = WorkerProcess c)
      \<or> (\<exists>p. ev = WriteLine (Processing t p))"
    and b: "\<And>ev. ev \<in> set post \<Longrightarrow> (\<exists>i r. ev = Settled i r) \<or> (\<exists>c. ev = WorkerProcess c)
      \<or> (\<exists>p. ev = WriteLine (Processing t p))"
    by blast+
  show "removed pre = []" by (rule no_removed) (use a in blast)
  show "removed post = []" by (rule no_removed) (use b in blast)
  show "readdirs pre = []" by (rule no_readdirs) (use a in blast)
  show "readdirs post = []" by (rule no_readdirs) (use b in blast)
  show "ends pre = []" by (rule no_ends) (use a in blast)
  show "ends post = []" by (rule no_ends) (use b in blast)
  show "rendered pre = []" by (rule no_rendered) (use a in blast)
  show "rendered post = []" by (rule no_rendered) (use b in blast)
  show "markers pre = []" by (rule no_markers) (use a in blast)
  show "markers post = []" by (rule no_markers) (use b in blast)
qed

lemma removed_readExisting [simp]: "removed (fst (readExisting env cfg)) = []"
  by (simp add: readExisting_def)

lemma processImages_removed:
  "removed (run_events (processImages env queue cfg)) =
     (case (snd (readExisting env cfg), run_result (pMap (\<lambda>c. [WorkerProcess c]) (process_res env)
         (\<lambda>progress. (Suc progress,
            [WriteLine (Processing (length queue)
               (percent (Suc progress) (length (chunk queue 25))))]))
         (process_order env) (chunk queue 25) (cpus_logical env) 0)) of
        (Inr existingImages, Inr u) \<Rightarrow>
          removed (fst (removeUnusedImages env cfg existingImages queue))
      | _ \<Rightarrow> [])"
proof (cases rule: processImages_cases [of env cfg queue])
  case (Unread rd e)
  then show ?thesis
    using removed_readExisting [of env cfg] by (simp add: run_events_def)
next
  case (Rejected rd existingImages pre e post)
  then show ?thesis
    using removed_readExisting [of env cfg] image_mapper_quiet(1,2) [OF Rejected(2)]
    by (simp add: run_events_def run_result_def)
next
  case (Resolved rd existingImages pre post evs r)
  then show ?thesis
    using removed_readExisting [of env cfg] image_mapper_quiet(1,2) [OF Resolved(2)]
    by (simp add: run_events_def run_result_def)
qed

lemma processImages_resolved:
  assumes "run_result (processImages env queue cfg) = Inr u"
  shows "\<exists>existingImages. snd (readExisting env cfg) = Inr existingImages \<and>
     snd (removeUnusedImages env cfg existingImages queue) = Inr () \<and>
     removed (run_events (processImages env queue cfg)) =
       removed (fst (removeUnusedImages env cfg existingImages queue))"
proof (cases rule: processImages_cases [of env cfg queue])
  case (Unread rd e)
  with assms show ?thesis by (simp add: run_result_def)
next
  case (Rejected rd existingImages pre e post)
  with assms show ?thesis by (simp add: run_result_def)
next
  case (Resolved rd existingImages pre post evs r)
  with assms show ?thesis
    using processImages_removed [of env queue cfg]
    by (simp add: run_result_def)
qed

subsection \<open>Reconciliation of the images directory\<close>

text \<open>C1: when unused images are to be removed and the images directory was read, every
  file the stage removes is a file of the directory listing whose name is not the base
  name of a destination path in the image queue, in every run; and when the stage
  resolves, the files removed are exactly the listed names that are not such a base
  name. Names are compared with base names, not with paths.\<close>

theorem removes_exactly_unused:
  assumes "\<not> emptyOutputDir cfg" and "removeUnused cfg" and "readdir_res env = Inr existing"
  shows "(\<forall>(d, f) \<in> set (removed (run_events (processImages env queue cfg))).
            d = imagesDir cfg \<and> f \<in> set existing \<and> f \<notin> basename ` destPath ` set queue) \<and>
         (run_result (processImages env queue cfg) = Inr () \<longrightarrow>
            removed (run_events (processImages env queue cfg)) =
              map (Pair (imagesDir cfg))
                (filter (\<lambda>f. f \<notin> basename ` destPath ` set queue) existing) \<and>
            snd ` set (removed (run_events (processImages env queue cfg))) =
              set existing - basename ` destPath ` set queue)"
proof -
  from assms have rd: "snd (readExisting env cfg) = Inr existing"
    by (simp add: readExisting_def)
  have safe: "d = imagesDir cfg \<and> f \<in> set existing \<and> f \<notin> basename ` destPath ` set queue"
    if "(d, f) \<in> set (removed (run_events (processImages env queue cfg)))" for d f
  proof -
    from that rd have "(d, f) \<in> set (removed (fst (removeUnusedImages env cfg existing queue)))"
      by (simp add: processImages_removed split: sum.splits)
    then have "Remove d f \<in> set (fst (removeUnusedImages env cfg existing queue))"
      by (simp add: set_removed)
    then have "d = imagesDir cfg \<and> f \<in> set (extraImages existing queue)"
      by (auto dest: removeUnusedImages_events)
    then show ?thesis by (simp add: extraImages_eq)
  qed
  have exact: "removed (run_events (processImages env queue cfg)) =
      map (Pair (imagesDir cfg)) (filter (\<lambda>f. f \<notin> basename ` destPath ` set queue) existing)"
    if "run_result (processImages env queue cfg) = Inr ()"
  proof -
    from processImages_resolved [OF that] rd
    have "snd (removeUnusedImages env cfg existing queue) = Inr ()"
      and "removed (run_events (processImages env queue cfg)) =
        removed (fst (removeUnusedImages env cfg existing queue))" by auto
    with assms(2) show ?thesis
      by (simp add: removeUnusedImages_resolved extraImages_eq)
  qed
  have "snd ` set (removed (run_events (processImages env queue cfg))) =
      set existing - basename ` destPath ` set queue"
    if "run_result (processImages env queue cfg) = Inr ()"
    unfolding exact [OF that] by (auto simp: image_iff)
  with safe exact show ?thesis by blast
qed

theorem removes_exactly_unused_witness:
  "\<not> emptyOutputDir sample_config \<and> removeUnused sample_config \<and>
   readdir_res sample_env = Inr [''a.png'', ''b.png'', ''c.png''] \<and>
   run_result (processImages sample_env sample_images sample_config) = Inr () \<and>
   basename ` destPath ` set sample_images = {''a.png'', ''d.png''} \<and>
   removed (run_events (processImages sample_env sample_images sample_config)) =
     [(''dist/assets/static'', ''b.png''), (''dist/assets/static'', ''c.png'')]"
proof -
  have a: "\<not> emptyOutputDir sample_config" "removeUnused sample_config"
    "readdir_res sample_env = Inr [''a.png'', ''b.png'', ''c.png'']"
    by (simp_all add: sample_config_def sample_env_def)
  have r: "run_result (processImages sample_env sample_images sample_config) = Inr ()"
    by (simp add: sample_processImages run_result_def)
  have b: "basename ` destPath ` set sample_images = {''a.png'', ''d.png''}"
    by (simp add: sample_images_def basename_def)
  from removes_exactly_unused [OF a, of sample_images] r
  have "removed (run_events (processImages sample_env sample_images sample_config)) =
      map (Pair (imagesDir sample_config))
        (filter (\<lambda>f. f \<notin> basename ` destPath ` set sample_images)
          [''a.png'', ''b.png'', ''c.png''])"
    by blast
  then have "removed (run_events (processImages sample_env sample_images sample_config)) =
     [(''dist/assets/static'', ''b.png''), (''dist/assets/static'', ''c.png'')]"
    by (simp add: b) (simp add: sample_config_def)
  with a r b show ?thesis by blast
qed

text \<open>C4: when the output directory is emptied at the start of the build, the images
  directory is not read (the set of existing images is empty) and no file is removed,
  whatever the image queue and the \<open>removeUnused\<close> option.\<close>

theorem emptied_output_removes_nothing:
  assumes "emptyOutputDir cfg"
  shows "readExisting env cfg = ([], Inr []) \<and>
         readdirs (run_events (processImages env queue cfg)) = [] \<and>
         removed (run_events (processImages env queue cfg)) = []"
proof -
  from assms have rd: "readExisting env cfg = ([], Inr [])"
    by (simp add: readExisting_def)
  have "removeUnusedImages env cfg [] queue = ([], Inr ())"
    by (simp add: removeUnusedImages_def)
  with rd have "removed (run_events (processImages env queue cfg)) = []"
    by (simp add: processImages_removed split: sum.splits)
  moreover have "readdirs (run_events (processImages env queue cfg)) = []"
  proof (cases rule: processImages_cases [of env cfg queue])
    case (Unread rd e)
    with rd show ?thesis by simp
  next
    case (Rejected rd' existingImages pre e post)
    with rd show ?thesis
      using image_mapper_quiet(3,4) [OF Rejected(2)] by (simp add: run_events_def)
  next
    case (Resolved rd' existingImages pre post evs r)
    with rd \<open>removeUnusedImages env cfg [] queue = ([], Inr ())\<close> show ?thesis
      using image_mapper_quiet(3,4) [OF Resolved(2)] by (simp add: run_events_def)
  qed
  ultimately show ?thesis using rd by simp
qed

theorem emptied_output_removes_nothing_witness:
  "emptyOutputDir (sample_config\<lparr>emptyOutputDir := True\<rparr>) \<and>
   removeUnused (sample_config\<lparr>emptyOutputDir := True\<rparr>) \<and>
   readdirs (run_events (processImages sample_env sample_images
     (sample_config\<lparr>emptyOutputDir := True\<rparr>))) = [] \<and>
   removed (run_events (processImages sample_env sample_images
     (sample_config\<lparr>emptyOutputDir := True\<rparr>))) = []"
proof -
  have a: "emptyOutputDir (sample_config\<lparr>emptyOutputDir := True\<rparr>)" by simp
  have "removeUnused (sample_config\<lparr>emptyOutputDir := True\<rparr>)"
    by (simp add: sample_config_def)
  with a emptied_output_removes_nothing [OF a, of sample_env sample_images]
  show ?thesis by simp
qed

lemma processImages_empty_queue:
  assumes "0 < cpus_logical env"
  shows "\<exists>rd x. readExisting env cfg = (rd, x) \<and>
     (case x of
        Inl e \<Rightarrow> processImages env [] cfg = (CreateWorker ''image-processor'' # rd, Inl e, [])
      | Inr existingImages \<Rightarrow>
          processImages env [] cfg =
            (CreateWorker ''image-processor'' # rd @
               [WriteLine (Processing 0 0), WorkerEnd ''image-processor'', WriteLine (Processed 0)]
               @ fst (removeUnusedImages env cfg existingImages []),
             snd (removeUnusedImages env cfg existingImages []), []))"
proof -
  have "pMap call res cont sched [] (cpus_logical env) st = ([], Inr (), [])"
    for call :: "asset list \<Rightarrow> event list" and res and cont :: "nat \<Rightarrow> nat \<times> event list"
      and sched st
    using assms by (simp add: pMap_def)
  then show ?thesis
    by (cases "readExisting env cfg")
      (auto simp: processImages_def Let_def split: sum.splits prod.splits)
qed

text \<open>C9: with the output directory kept, \<open>removeUnused\<close> set, a non-empty listing of
  the images directory and an empty image queue, every listed file is classified as
  extra; the stage removes every one of them whenever it resolves, and it resolves when
  the worker pool has at least one logical processor and no removal is rejected.\<close>

theorem empty_queue_removes_every_existing:
  assumes "\<not> emptyOutputDir cfg" and "removeUnused cfg"
    and "readdir_res env = Inr existing" and "existing \<noteq> []"
  shows "extraImages existing [] = existing \<and>
         (run_result (processImages env [] cfg) = Inr () \<longrightarrow>
            removed (run_events (processImages env [] cfg)) =
              map (Pair (imagesDir cfg)) existing) \<and>
         (0 < cpus_logical env \<and> (\<forall>f \<in> set existing. remove_res env f = None) \<longrightarrow>
            run_result (processImages env [] cfg) = Inr () \<and>
            removed (run_events (processImages env [] cfg)) =
              map (Pair (imagesDir cfg)) existing)"
proof -
  have x: "extraImages existing [] = existing"
    by (simp add: extraImages_def newImages_def)
  from assms have rd: "readExisting env cfg = ([ReadDir (imagesDir cfg)], Inr existing)"
    by (simp add: readExisting_def)
  have a: "removed (run_events (processImages env [] cfg)) = map (Pair (imagesDir cfg)) existing"
    if "run_result (processImages env [] cfg) = Inr ()"
  proof -
    from processImages_resolved [OF that] rd
    have "snd (removeUnusedImages env cfg existing []) = Inr ()"
      and "removed (run_events (processImages env [] cfg)) =
        removed (fst (removeUnusedImages env cfg existing []))" by auto
    with assms(2) show ?thesis
      by (simp add: removeUnusedImages_resolved x)
  qed
  have b: "run_result (processImages env [] cfg) = Inr ()"
    if "0 < cpus_logical env" and "\<forall>f \<in> set existing. remove_res env f = None"
  proof -
    from that(2) have "snd (removeUnusedImages env cfg existing []) = Inr ()"
      by (rule removeUnusedImages_ok)
    with processImages_empty_queue [OF that(1), of cfg] rd show ?thesis
      by (simp add: run_result_def)
  qed
  from x a b show ?thesis by blast
qed

theorem empty_queue_removes_every_existing_witness:
  "\<not> emptyOutputDir sample_config \<and> removeUnused sample_config \<and>
   readdir_res sample_env = Inr [''a.png'', ''b.png'', ''c.png''] \<and>
   [''a.png'', ''b.png'', ''c.png''] \<noteq> ([] :: string list) \<and>
   0 < cpus_logical sample_env \<and>
   remove_res sample_env ''a.png'' = None \<and> remove_res sample_env ''b.png'' = None \<and>
   remove_res sample_env ''c.png'' = None \<and>
   run_result (processImages sample_env [] sample_config) = Inr () \<and>
   removed (run_events (processImages sample_env [] sample_config)) =
     [(''dist/assets/static'', ''a.png''), (''dist/assets/static'', ''b.png''),
      (''dist/assets/static'', ''c.png'')]"
proof -
  have a: "\<not> emptyOutputDir sample_config" "removeUnused sample_config"
    "readdir_res sample_env = Inr [''a.png'', ''b.png'', ''c.png'']"
    "[''a.png'', ''b.png'', ''c.png''] \<noteq> ([] :: string list)"
    by (simp_all add: sample_config_def sample_env_def)
  have b: "0 < cpus_logical sample_env"
    "\<forall>f \<in> set [''a.png'', ''b.png'', ''c.png'']. remove_res sample_env f = None"
    by (simp_all add: sample_env_def)
  from empty_queue_removes_every_existing [OF a] b
  have "run_result (processImages sample_env [] sample_config) = Inr () \<and>
      removed (run_events (processImages sample_env [] sample_config)) =
        map (Pair (imagesDir sample_config)) [''a.png'', ''b.png'', ''c.png'']"
    by blast
  then have "run_result (processImages sample_env [] sample_config) = Inr () \<and>
      removed (run_events (processImages sample_env [] sample_config)) =
     [(''dist/assets/static'', ''a.png''), (''dist/assets/static'', ''b.png''),
      (''dist/assets/static'', ''c.png'')]"
    by (simp add: sample_config_def)
  with a b show ?thesis by simp
qed

subsection \<open>Reading the images directory\<close>

text \<open>C10: when the output directory is not emptied, the first call of the image stage
  after creating its worker is the read of the images directory, whatever
  \<open>removeUnused\<close> is, so the read comes before every chunk dispatch; if the read is
  rejected the stage rejects with that error and no chunk is dispatched.\<close>

theorem images_directory_read_first:
  assumes "\<not> emptyOutputDir cfg"
  shows "take 2 (fst (processImages env queue cfg)) =
           [CreateWorker ''image-processor'', ReadDir (imagesDir cfg)] \<and>
         (\<forall>e. readdir_res env = Inl e \<longrightarrow>
            processImages env queue cfg =
              ([CreateWorker ''image-processor'', ReadDir (imagesDir cfg)], Inl e, []) \<and>
            dispatched (run_events (processImages env queue cfg)) = [])"
proof -
  from assms have rd: "readExisting env cfg = ([ReadDir (imagesDir cfg)], readdir_res env)"
    by (simp add: readExisting_def)
  have "take 2 (fst (processImages env queue cfg)) =
      [CreateWorker ''image-processor'', ReadDir (imagesDir cfg)]"
    by (cases rule: processImages_cases [of env cfg queue]) (use rd in auto)
  moreover have "processImages env queue cfg =
      ([CreateWorker ''image-processor'', ReadDir (imagesDir cfg)], Inl e, [])"
    if "readdir_res env = Inl e" for e
    using that rd by (simp add: processImages_def)
  ultimately show ?thesis by (simp add: run_events_def)
qed

theorem images_directory_read_first_witness:
  "\<not> emptyOutputDir (sample_config\<lparr>removeUnused := False\<rparr>) \<and>
   \<not> removeUnused (sample_config\<lparr>removeUnused := False\<rparr>) \<and>
   readdir_res (sample_env\<lparr>readdir_res := Inl ''ENOENT''\<rparr>) = Inl ''ENOENT'' \<and>
   processImages (sample_env\<lparr>readdir_res := Inl ''ENOENT''\<rparr>) sample_images
       (sample_config\<lparr>removeUnused := False\<rparr>) =
     ([CreateWorker ''image-processor'', ReadDir ''dist/assets/static''], Inl ''ENOENT'', [])"
proof -
  have a: "\<not> emptyOutputDir (sample_config\<lparr>removeUnused := False\<rparr>)"
    by (simp add: sample_config_def)
  have b: "readdir_res (sample_env\<lparr>readdir_res := Inl ''ENOENT''\<rparr>) = Inl ''ENOENT''"
    by simp
  from images_directory_read_first [OF a, of "sample_env\<lparr>readdir_res := Inl ''ENOENT''\<rparr>"
      sample_images] b
  have "processImages (sample_env\<lparr>readdir_res := Inl ''ENOENT''\<rparr>) sample_images
       (sample_config\<lparr>removeUnused := False\<rparr>) =
     ([CreateWorker ''image-processor'',
       ReadDir (imagesDir (sample_config\<lparr>removeUnused := False\<rparr>))], Inl ''ENOENT'', [])"
    by blast
  with a b show ?thesis by (simp add: sample_config_def)
qed

lemma many_chunks:
  "chunk many_images 25 =
     [replicate 25 \<lparr>filePath = ''src/a.png'', destPath = ''dist/assets/static/a.png''\<rparr>,
      replicate 25 \<lparr>filePath = ''src/a.png'', destPath = ''dist/assets/static/a.png''\<rparr>,
      [\<lparr>filePath = ''src/a.png'', destPath = ''dist/assets/static/a.png''\<rparr>]]"
  by (simp add: many_images_def chunk_step)

lemma second_of_two_fails:
  assumes "res (Suc 0) = Some e" and "res 0 = None"
  shows "pMap call res cont [Suc 0] [c0, c1, c2] 2 st =
     (call c0 @ call c1 @ [Settled (Suc 0) (Some e)], Inl e, Settled 0 None # snd (cont st))"
proof -
  have "pMap_loop call res cont [Suc 0] [(2, c2)] [0, Suc 0] st =
      ([Settled (Suc 0) (Some e)], Inl e, pMap_stragglers res cont [] [0] st)"
    using assms(1) by (subst pMap_loop.simps) (simp add: pick_def without_def)
  moreover have "pMap_stragglers res cont [] [0] st = Settled 0 None # snd (cont st)"
    using assms(2) by (subst pMap_stragglers.simps) (simp add: pick_def without_def)
  ultimately show ?thesis
    by (simp add: pMap_def upt_rec numeral_2_eq_2 numeral_3_eq_3)
qed

lemma failing_processImages:
  "processImages failing_env many_images sample_config =
     ([CreateWorker ''image-processor'', ReadDir ''dist/assets/static'',
       WriteLine (Processing 51 0),
       WorkerProcess (replicate 25
         \<lparr>filePath = ''src/a.png'', destPath = ''dist/assets/static/a.png''\<rparr>),
       WorkerProcess (replicate 25
         \<lparr>filePath = ''src/a.png'', destPath = ''dist/assets/static/a.png''\<rparr>),
       Settled 1 (Some ''EIMAGE''), WorkerEnd ''image-processor''],
      Inl ''EIMAGE'',
      [Settled 0 None, WriteLine (Processing 51 33)])"
  by (simp add: processImages_def many_chunks Let_def readExisting_def failing_env_def
      sample_env_def sample_config_def second_of_two_fails percent_div)
    (simp add: many_images_def)

subsection \<open>Failure of a chunk in the image stage\<close>

lemma failures_readExisting [simp]: "failures (fst (readExisting env cfg)) = []"
  by (simp add: readExisting_def)

lemma failures_removeUnusedImages [simp]:
  "failures (fst (removeUnusedImages env cfg existingImages queue)) = []"
  by (rule no_failures) (auto dest: removeUnusedImages_events)

text \<open>C6: if the worker call of some chunk is rejected in the image stage, then the
  events of the stage up to its settlement end with the first such rejection followed by
  the termination of the worker, the stage rejects with the error of that first
  rejection, no chunk is dispatched afterwards and nothing is removed.\<close>

theorem first_failure_wins:
  assumes "failures (run_events (processImages env queue cfg)) \<noteq> []"
  shows "\<exists>pre0 i e.
           fst (processImages env queue cfg) =
             pre0 @ [Settled i (Some e), WorkerEnd ''image-processor''] \<and>
           failures pre0 = [] \<and>
           run_result (processImages env queue cfg) = Inl e \<and>
           dispatched (snd (snd (processImages env queue cfg))) = [] \<and>
           removed (run_events (processImages env queue cfg)) = []"
proof (cases rule: processImages_cases [of env cfg queue])
  case (Unread rd e)
  with assms failures_readExisting [of env cfg] show ?thesis
    by (simp add: run_events_def)
next
  case (Rejected rd existingImages pre e post)
  from pMap_result [where call = "\<lambda>c. [WorkerProcess c]"
      and cont = "\<lambda>progress. (Suc progress, [WriteLine (Processing (length queue)
          (percent (Suc progress) (length (chunk queue 25))))])"
      and res = "process_res env" and sched = "process_order env" and items = "chunk queue 25"
      and concurrency = "cpus_logical env" and st = 0]
  have "(pre = [] \<and> post = [] \<and> cpus_logical env < 1) \<or>
      (\<exists>pre0 i. pre = pre0 @ [Settled i (Some e)] \<and> failures pre0 = []) \<and>
      (\<exists>sched' inflight' st'. post = pMap_stragglers (process_res env)
         (\<lambda>progress. (Suc progress, [WriteLine (Processing (length queue)
          (percent (Suc progress) (length (chunk queue 25))))])) sched' inflight' st')"
    by (simp add: Rejected(2))
  moreover have "\<not> (pre = [] \<and> post = [])"
    using assms Rejected(1,3) failures_readExisting [of env cfg]
    by (auto simp: run_events_def)
  ultimately obtain pre0 i sched' inflight' st'
    where pre: "pre = pre0 @ [Settled i (Some e)]" "failures pre0 = []"
      and post: "post = pMap_stragglers (process_res env)
         (\<lambda>progress. (Suc progress, [WriteLine (Processing (length queue)
          (percent (Suc progress) (length (chunk queue 25))))])) sched' inflight' st'"
    by blast
  have d: "dispatched post = []"
    unfolding post by (rule no_dispatched) (auto dest: image_stragglers_events)
  let ?pre0 = "CreateWorker ''image-processor'' # rd @ WriteLine (Processing (length queue) 0) # pre0"
  have "fst (processImages env queue cfg) =
      ?pre0 @ [Settled i (Some e), WorkerEnd ''image-processor'']"
    by (simp add: Rejected(3) pre)
  moreover have "failures ?pre0 = []"
    using pre(2) Rejected(1) failures_readExisting [of env cfg] by simp
  moreover have "run_result (processImages env queue cfg) = Inl e"
    by (simp add: Rejected(3) run_result_def)
  moreover have "dispatched (snd (snd (processImages env queue cfg))) = []"
    by (simp add: Rejected(3) d)
  moreover have "removed (run_events (processImages env queue cfg)) = []"
    by (simp add: processImages_removed Rejected(2) run_result_def split: sum.splits)
  ultimately show ?thesis by blast
next
  case (Resolved rd existingImages pre post evs r)
  from pMap_result [where call = "\<lambda>c. [WorkerProcess c]"
      and cont = "\<lambda>progress. (Suc progress, [WriteLine (Processing (length queue)
          (percent (Suc progress) (length (chunk queue 25))))])"
      and res = "process_res env" and sched = "process_order env" and items = "chunk queue 25"
      and concurrency = "cpus_logical env" and st = 0]
  have "failures pre = [] \<and> post = []"
    by (simp add: Resolved(2))
  with assms Resolved(1,3,4) failures_readExisting [of env cfg]
    failures_removeUnusedImages [of env cfg existingImages queue]
  show ?thesis by (simp add: run_events_def)
qed

theorem first_failure_wins_witness:
  "failures (run_events (processImages failing_env many_images sample_config)) \<noteq> [] \<and>
   length (chunk many_images 25) = 3 \<and>
   run_result (processImages failing_env many_images sample_config) = Inl ''EIMAGE'' \<and>
   length (dispatched (fst (processImages failing_env many_images sample_config))) = 2 \<and>
   dispatched (snd (snd (processImages failing_env many_images sample_config))) = [] \<and>
   last (fst (processImages failing_env many_images sample_config)) =
     WorkerEnd ''image-processor''"
proof -
  have a: "failures (run_events (processImages failing_env many_images sample_config)) \<noteq> []"
    by (simp add: failing_processImages run_events_def)
  from first_failure_wins [OF a] obtain pre0 i e where
    "fst (processImages failing_env many_images sample_config) =
       pre0 @ [Settled i (Some e), WorkerEnd ''image-processor'']"
    "run_result (processImages failing_env many_images sample_config) = Inl e"
    "dispatched (snd (snd (processImages failing_env many_images sample_config))) = []"
    by blast
  moreover have "length (dispatched (fst (processImages failing_env many_images sample_config))) = 2"
    "run_result (processImages failing_env many_images sample_config) = Inl ''EIMAGE''"
    by (simp_all add: failing_processImages run_result_def)
  ultimately show ?thesis
    using a by (simp add: many_chunks)
qed

subsection \<open>Progress of the image stage\<close>

lemma completed_Cons_None [simp]: "completed (Settled i None # evs) = Suc (completed evs)"
  by (simp add: completed_def)

lemma completed_append [simp]: "completed (xs @ ys) = completed xs + completed ys"
  by (simp add: completed_def)

lemma progress_lines_step:
  "None # Some (percent (Suc p) n) #
     concat (map (\<lambda>k. [None, Some (percent k n)]) [Suc (Suc p)..<Suc (Suc p) + m]) =
   concat (map (\<lambda>k. [None, Some (percent k n)]) [Suc p..<Suc p + Suc m])"
proof -
  have "[Suc p..<Suc p + Suc m] = Suc p # [Suc (Suc p)..<Suc (Suc p) + m]"
    by (simp add: upt_conv_Cons)
  then show ?thesis by simp
qed

lemma stragglers_progress:
  assumes "\<And>p. cont p = (Suc p, [WriteLine (Processing t (percent (Suc p) n))])"
  shows "completions (pMap_stragglers res cont sched inflight p) =
     concat (map (\<lambda>k. [None, Some (percent k n)])
       [Suc p..<Suc p + completed (pMap_stragglers res cont sched inflight p)])"
  using assms
proof (induction res cont sched inflight p rule: pMap_stragglers.induct)
  case (1 res cont sched inflight p)
  note cont = "1.prems"
  show ?case
  proof (cases "inflight = []")
    case True
    then show ?thesis by (simp add: completed_def)
  next
    case False
    show ?thesis
    proof (cases "res (inflight ! pick sched (length inflight))")
      case (Some e)
      define rest where "rest = pMap_stragglers res cont (tl sched)
          (without (pick sched (length inflight)) inflight) p"
      have st: "pMap_stragglers res cont sched inflight p =
          Settled (inflight ! pick sched (length inflight)) (Some e) # rest"
        unfolding rest_def using False Some by (rule pMap_stragglers_fail)
      note ih = "1.IH"(2) [OF False refl refl Some cont, folded rest_def]
      have "completions (pMap_stragglers res cont sched inflight p) = completions rest"
        unfolding st by simp
      moreover have "completed (pMap_stragglers res cont sched inflight p) = completed rest"
        unfolding st by (simp add: completed_def)
      ultimately show ?thesis
        using ih by (simp only:)
    next
      case None
      have fc: "fst (cont p) = Suc p" "snd (cont p) = [WriteLine (Processing t (percent (Suc p) n))]"
        by (simp_all add: cont)
      define rest where "rest = pMap_stragglers res cont (tl sched)
          (without (pick sched (length inflight)) inflight) (Suc p)"
      have st: "pMap_stragglers res cont sched inflight p =
          Settled (inflight ! pick sched (length inflight)) None
            # WriteLine (Processing t (percent (Suc p) n)) # rest"
        using pMap_stragglers_ok [of inflight res sched cont p, OF False None]
        unfolding fc rest_def by simp
      note ih = "1.IH"(1) [OF False refl refl None cont, unfolded fc, folded rest_def]
      have "completions (pMap_stragglers res cont sched inflight p) =
          None # Some (percent (Suc p) n) # completions rest"
        unfolding st by simp
      moreover have "completed (pMap_stragglers res cont sched inflight p) = Suc (completed rest)"
        unfolding st by (simp add: completed_def)
      ultimately show ?thesis
        using ih by (simp only: progress_lines_step)
    qed
  qed
qed

lemma loop_progress:
  assumes "\<And>p. cont p = (Suc p, [WriteLine (Processing t (percent (Suc p) n))])"
    and "\<And>x. completions (call x) = []"
  shows "completions (run_events (pMap_loop call res cont sched pending inflight p)) =
     concat (map (\<lambda>k. [None, Some (percent k n)])
       [Suc p..<Suc p + completed (run_events (pMap_loop call res cont sched pending inflight p))])"
  using assms
proof (induction call res cont sched pending inflight p rule: pMap_loop.induct)
  case (1 call res cont sched pending inflight p)
  note cont = "1.prems"(1) and call = "1.prems"(2)
  show ?case
  proof (cases "inflight = []")
    case True
    then show ?thesis by (simp add: completed_def run_events_def)
  next
    case False
    show ?thesis
    proof (cases "res (inflight ! pick sched (length inflight))")
      case (Some e)
      have st: "pMap_loop call res cont sched pending inflight p =
         ([Settled (inflight ! pick sched (length inflight)) (Some e)], Inl e,
          pMap_stragglers res cont (tl sched) (without (pick sched (length inflight)) inflight) p)"
        using False Some by (rule pMap_loop_fail)
      define rest where "rest = pMap_stragglers res cont (tl sched)
          (without (pick sched (length inflight)) inflight) p"
      note sp = stragglers_progress [of cont t n res "tl sched"
          "without (pick sched (length inflight)) inflight" p, OF cont, folded rest_def]
      have e: "run_events (pMap_loop call res cont sched pending inflight p) =
          Settled (inflight ! pick sched (length inflight)) (Some e) # rest"
        unfolding st rest_def by (simp add: run_events_def)
      have "completions (run_events (pMap_loop call res cont sched pending inflight p)) =
          completions rest"
        unfolding e by simp
      moreover have "completed (run_events (pMap_loop call res cont sched pending inflight p)) =
          completed rest"
        unfolding e by (simp add: completed_def)
      ultimately show ?thesis
        using sp by (simp only:)
    next
      case None
      obtain pre r post where rec: "pMap_loop call res cont (tl sched) (tl pending)
          (without (pick sched (length inflight)) inflight @ map fst (take 1 pending))
          (fst (cont p)) = (pre, r, post)"
        using prod_cases3 by blast
      have st: "pMap_loop call res cont sched pending inflight p =
          (Settled (inflight ! pick sched (length inflight)) None # snd (cont p)
            @ concat (map (call \<circ> snd) (take 1 pending)) @ pre, r, post)"
        using False None rec by (rule pMap_loop_ok)
      have c: "completions (concat (map (call \<circ> snd) (take 1 pending))) = []"
        by (cases pending) (simp_all add: call)
      have fc: "fst (cont p) = Suc p" "snd (cont p) = [WriteLine (Processing t (percent (Suc p) n))]"
        by (simp_all add: cont)
      have re: "run_events (pre, r, post) = pre @ post"
        by (simp add: run_events_def)
      note ih = "1.IH" [OF False refl refl refl None cont call, unfolded rec, unfolded re fc]
      have e: "run_events (pMap_loop call res cont sched pending inflight p) =
          Settled (inflight ! pick sched (length inflight)) None
            # WriteLine (Processing t (percent (Suc p) n))
            # concat (map (call \<circ> snd) (take 1 pending)) @ pre @ post"
        unfolding st fc by (simp add: run_events_def)
      have d: "completed (concat (map (call \<circ> snd) (take 1 pending))) = 0"
        using c by (simp add: completed_def)
      have "completions (run_events (pMap_loop call res cont sched pending inflight p)) =
          None # Some (percent (Suc p) n) # completions (pre @ post)"
        unfolding e using c by simp
      moreover have "completed (run_events (pMap_loop call res cont sched pending inflight p)) =
          Suc (completed (pre @ post))"
        unfolding e using d by (simp add: completed_def)
      ultimately show ?thesis
        using ih by (simp only: progress_lines_step)
    qed
  qed
qed


lemma completions_calls:
  "(\<And>x. completions (call x) = []) \<Longrightarrow> completions (concat (map (call \<circ> snd) xs)) = []"
  by (induction xs) simp_all

lemma pMap_progress:
  assumes cont: "\<And>p. cont p = (Suc p, [WriteLine (Processing t (percent (Suc p) n))])"
    and call: "\<And>x. completions (call x) = []"
  shows "completions (run_events (pMap call res cont sched items concurrency p)) =
     concat (map (\<lambda>k. [None, Some (percent k n)])
       [Suc p..<Suc p + completed (run_events (pMap call res cont sched items concurrency p))])"
proof (cases "concurrency < 1")
  case True
  then show ?thesis by (simp add: pMap_def run_events_def completed_def)
next
  case False
  define indexed where "indexed = zip [0..<length items] items"
  define started where "started = concat (map (call \<circ> snd) (take concurrency indexed))"
  define loop where "loop = pMap_loop call res cont sched (drop concurrency indexed)
      (map fst (take concurrency indexed)) p"
  have s: "completions started = []"
    unfolding started_def using call by (rule completions_calls)
  have e: "run_events (pMap call res cont sched items concurrency p) = started @ run_events loop"
    using False
    by (cases loop rule: prod_cases3)
      (simp add: pMap_def indexed_def [symmetric] started_def [symmetric] loop_def [symmetric]
        run_events_def)
  note lp = loop_progress [of cont t n call res sched "drop concurrency indexed"
      "map fst (take concurrency indexed)" p, OF cont call, folded loop_def]
  have "completions (run_events (pMap call res cont sched items concurrency p)) =
      completions (run_events loop)"
    unfolding e using s by simp
  moreover have "completed (run_events (pMap call res cont sched items concurrency p)) =
      completed (run_events loop)"
    unfolding e using s by (simp add: completed_def)
  ultimately show ?thesis
    using lp by (simp only:)
qed

lemma completions_readExisting [simp]: "completions (fst (readExisting env cfg)) = []"
  by (simp add: readExisting_def)

lemma completions_removeUnusedImages [simp]:
  "completions (fst (removeUnusedImages env cfg existingImages queue)) = []"
proof -
  have "\<forall>ev \<in> set evs. (\<exists>d f. ev = Remove d f) \<or> (\<exists>m. ev = Log m) \<Longrightarrow>
      completions evs = []" for evs
    by (induction evs) auto
  then show ?thesis
    by (rule) (auto dest: removeUnusedImages_events)
qed

text \<open>C8: the percentages written to the progress line of the image stage are 0 at the
  start and then, directly after the n-th completed worker call, the rounded value of
  \<open>100 * n / N\<close>, where \<open>N\<close> is the number of chunks: progress counts chunks, one per
  completed chunk. (Nothing is written when the read of the images directory fails.)\<close>

theorem progress_counts_chunks:
  "completions (run_events (processImages env queue cfg)) =
     (if isl (snd (readExisting env cfg)) then []
      else Some 0 #
        concat (map (\<lambda>n. [None,
            Some (Math_round (rat_of_nat (n * 100) / rat_of_nat (length (chunk queue 25))))])
          [1..<Suc (completed (run_events (processImages env queue cfg)))]))"
proof -
  let ?cont = "\<lambda>progress. (Suc progress,
      [WriteLine (Processing (length queue) (percent (Suc progress) (length (chunk queue 25))))])"
  define pm where "pm = pMap (\<lambda>c. [WorkerProcess c]) (process_res env) ?cont
      (process_order env) (chunk queue 25) (cpus_logical env) 0"
  have pp: "completions (run_events pm) =
      concat (map (\<lambda>k. [None, Some (percent k (length (chunk queue 25)))])
        [Suc 0..<Suc 0 + completed (run_events pm)])"
    unfolding pm_def by (rule pMap_progress) simp_all
  show ?thesis
  proof (cases rule: processImages_cases [of env cfg queue])
    case (Unread rd e)
    then show ?thesis
      using completions_readExisting [of env cfg] by (simp add: run_events_def)
  next
    case (Rejected rd existingImages pre e post)
    from Rejected(2) have pm: "run_events pm = pre @ post"
      by (simp add: pm_def run_events_def)
    have "completions (run_events (processImages env queue cfg)) =
        Some 0 # completions (run_events pm)"
      unfolding pm Rejected(3) using Rejected(1) completions_readExisting [of env cfg]
      by (simp add: run_events_def)
    moreover have "completed (run_events (processImages env queue cfg)) = completed (run_events pm)"
      unfolding pm Rejected(3) using Rejected(1) completions_readExisting [of env cfg]
      by (simp add: run_events_def completed_def)
    ultimately show ?thesis
      using pp Rejected(1) by (simp only: percent_def) simp
  next
    case (Resolved rd existingImages pre post evs r)
    from Resolved(2) have pm: "run_events pm = pre @ post"
      by (simp add: pm_def run_events_def)
    have "completions (run_events (processImages env queue cfg)) =
        Some 0 # completions (run_events pm)"
      unfolding pm Resolved(4) using Resolved(1,3) completions_readExisting [of env cfg]
        completions_removeUnusedImages [of env cfg existingImages queue]
      by (simp add: run_events_def)
    moreover have "completed (run_events (processImages env queue cfg)) = completed (run_events pm)"
      unfolding pm Resolved(4) using Resolved(1,3) completions_readExisting [of env cfg]
        completions_removeUnusedImages [of env cfg existingImages queue]
      by (simp add: run_events_def completed_def)
    ultimately show ?thesis
      using pp Resolved(1) by (simp only: percent_def) simp
  qed
qed

theorem progress_counts_chunks_witness:
  "\<not> isl (snd (readExisting failing_env sample_config)) \<and>
   length (chunk many_images 25) = 3 \<and>
   completed (run_events (processImages failing_env many_images sample_config)) = 1 \<and>
   completions (run_events (processImages failing_env many_images sample_config)) =
     [Some 0, None, Some 33]"
proof -
  have a: "\<not> isl (snd (readExisting failing_env sample_config))"
    by (simp add: readExisting_def failing_env_def sample_env_def sample_config_def)
  have b: "completed (run_events (processImages failing_env many_images sample_config)) = 1"
    by (simp add: failing_processImages run_events_def completed_def)
  have c: "length (chunk many_images 25) = 3"
    by (simp add: many_chunks)
  have "Math_round (rat_of_nat (1 * 100) / rat_of_nat 3) = 33"
    using percent_div [of 3 1] by (simp add: percent_def)
  with progress_counts_chunks [of failing_env many_images sample_config] a b c
  show ?thesis by simp
qed

subsection \<open>The HTML stage\<close>

lemma render_stragglers_Nil [simp]: "render_stragglers env sched [] = []"
  by (subst render_stragglers.simps) simp

lemma render_stragglers_step:
  "inflight \<noteq> [] \<Longrightarrow>
   render_stragglers env sched inflight =
     (case render_res env (inflight ! pick sched (length inflight)) of
        Some e \<Rightarrow> [Settled (inflight ! pick sched (length inflight)) (Some e),
                   WorkerEnd ''html-writer'']
      | None \<Rightarrow> [Settled (inflight ! pick sched (length inflight)) None])
     @ render_stragglers env (tl sched) (without (pick sched (length inflight)) inflight)"
  by (subst render_stragglers.simps) (simp add: Let_def)

lemma render_settle_Nil [simp]: "render_settle env sched [] = ([], Inr (), [])"
  by (subst render_settle.simps) simp

lemma render_settle_fail:
  "inflight \<noteq> [] \<Longrightarrow> render_res env (inflight ! pick sched (length inflight)) = Some e \<Longrightarrow>
   render_settle env sched inflight =
     ([Settled (inflight ! pick sched (length inflight)) (Some e), WorkerEnd ''html-writer''],
      Inl e,
      render_stragglers env (tl sched) (without (pick sched (length inflight)) inflight))"
  by (subst render_settle.simps) (simp add: Let_def)

lemma render_settle_ok:
  "inflight \<noteq> [] \<Longrightarrow> render_res env (inflight ! pick sched (length inflight)) = None \<Longrightarrow>
   render_settle env (tl sched) (without (pick sched (length inflight)) inflight)
     = (pre, r, post) \<Longrightarrow>
   render_settle env sched inflight =
     (Settled (inflight ! pick sched (length inflight)) None # pre, r, post)"
  by (subst render_settle.simps) (simp add: Let_def)

lemma render_stragglers_events:
  "ev \<in> set (render_stragglers env sched inflight) \<Longrightarrow>
     (\<exists>i r. ev = Settled i r) \<or> ev = WorkerEnd ''html-writer''"
proof (induction env sched inflight rule: render_stragglers.induct)
  case (1 env sched inflight)
  show ?case
  proof (cases "inflight = []")
    case True
    with "1.prems" show ?thesis by simp
  next
    case False
    from "1.prems" "1.IH" [OF False refl] show ?thesis
      unfolding render_stragglers_step [OF False]
      by (auto split: option.splits)
  qed
qed

lemma render_settle_events:
  "ev \<in> set (run_events (render_settle env sched inflight)) \<Longrightarrow>
     (\<exists>i r. ev = Settled i r) \<or> ev = WorkerEnd ''html-writer''"
proof (induction env sched inflight rule: render_settle.induct)
  case (1 env sched inflight)
  show ?case
  proof (cases "inflight = []")
    case True
    with "1.prems" show ?thesis by (simp add: run_events_def)
  next
    case False
    show ?thesis
    proof (cases "render_res env (inflight ! pick sched (length inflight))")
      case (Some e)
      from "1.prems" show ?thesis
        unfolding render_settle_fail [OF False Some]
        by (auto simp: run_events_def dest: render_stragglers_events)
    next
      case None
      obtain pre r post where rec:
        "render_settle env (tl sched) (without (pick sched (length inflight)) inflight)
           = (pre, r, post)"
        using prod_cases3 by blast
      from "1.prems" "1.IH" [OF False refl refl refl None] show ?thesis
        unfolding render_settle_ok [OF False None rec] rec
        by (auto simp: run_events_def)
    qed
  qed
qed

lemma render_settle_resolved:
  "fst (snd (render_settle env sched inflight)) = Inr u \<Longrightarrow>
   snd (snd (render_settle env sched inflight)) = [] \<and>
   ends (fst (render_settle env sched inflight)) = []"
proof (induction env sched inflight rule: render_settle.induct)
  case (1 env sched inflight)
  show ?case
  proof (cases "inflight = []")
    case True
    then show ?thesis by simp
  next
    case False
    show ?thesis
    proof (cases "render_res env (inflight ! pick sched (length inflight))")
      case (Some e)
      from "1.prems" show ?thesis
        unfolding render_settle_fail [OF False Some] by simp
    next
      case None
      obtain pre r post where rec:
        "render_settle env (tl sched) (without (pick sched (length inflight)) inflight)
           = (pre, r, post)"
        using prod_cases3 by blast
      from "1.prems" "1.IH" [OF False refl refl refl None] show ?thesis
        unfolding render_settle_ok [OF False None rec] rec by simp
    qed
  qed
qed

lemma renderHTML_events:
  assumes "ev \<in> set (run_events (renderHTML env renderQueue hash))"
  shows "ev = CreateWorker ''html-writer'' \<or> (\<exists>pages. ev = WorkerRender hash pages)
     \<or> (\<exists>i r. ev = Settled i r) \<or> ev = WorkerEnd ''html-writer''
     \<or> ev = Log (RenderedHTML (length renderQueue))"
proof -
  obtain pre r post where rs: "render_settle env (render_order env)
      [0..<length (chunk renderQueue 350)] = (pre, r, post)"
    using prod_cases3 by blast
  have "(\<exists>i r. ev = Settled i r) \<or> ev = WorkerEnd ''html-writer''" if "ev \<in> set (pre @ post)"
    using that render_settle_events [of ev env "render_order env"
        "[0..<length (chunk renderQueue 350)]"]
    by (simp add: rs run_events_def)
  with assms rs show ?thesis
    by (cases r) (auto simp: renderHTML_def Let_def run_events_def)
qed


lemma render_stragglers_ends:
  "length (ends (render_stragglers env sched inflight)) =
   length (failures (render_stragglers env sched inflight))"
proof (induction env sched inflight rule: render_stragglers.induct)
  case (1 env sched inflight)
  show ?case
  proof (cases "inflight = []")
    case True
    then show ?thesis by simp
  next
    case False
    from "1.IH" [OF False refl] show ?thesis
      unfolding render_stragglers_step [OF False]
      by (simp split: option.splits)
  qed
qed

lemma render_settle_ends:
  "length (ends (run_events (render_settle env sched inflight))) =
   length (failures (run_events (render_settle env sched inflight))) \<and>
   (failures (run_events (render_settle env sched inflight)) = [] \<longleftrightarrow>
      \<not> isl (fst (snd (render_settle env sched inflight))))"
proof (induction env sched inflight rule: render_settle.induct)
  case (1 env sched inflight)
  show ?case
  proof (cases "inflight = []")
    case True
    then show ?thesis by (simp add: run_events_def)
  next
    case False
    show ?thesis
    proof (cases "render_res env (inflight ! pick sched (length inflight))")
      case (Some e)
      show ?thesis
        unfolding render_settle_fail [OF False Some]
        by (simp add: run_events_def render_stragglers_ends)
    next
      case None
      obtain pre r post where rec:
        "render_settle env (tl sched) (without (pick sched (length inflight)) inflight)
           = (pre, r, post)"
        using prod_cases3 by blast
      from "1.IH" [OF False refl refl refl None] show ?thesis
        unfolding render_settle_ok [OF False None rec] rec
        by (simp add: run_events_def)
    qed
  qed
qed

text \<open>How often the HTML stage ends its worker: once when every chunk is rendered,
  and otherwise once for each chunk whose call is rejected.\<close>

lemma renderHTML_ends:
  "length (ends (run_events (renderHTML env renderQueue hash))) =
     (if failures (run_events (renderHTML env renderQueue hash)) = [] then 1
      else length (failures (run_events (renderHTML env renderQueue hash))))"
proof -
  obtain pre r post where rs: "render_settle env (render_order env)
      [0..<length (chunk renderQueue 350)] = (pre, r, post)"
    using prod_cases3 by blast
  have c: "ends (map (WorkerRender hash) cs) = [] \<and> failures (map (WorkerRender hash) cs) = []"
    for cs by (induction cs) simp_all
  from render_settle_ends [of env "render_order env" "[0..<length (chunk renderQueue 350)]"]
  have e: "length (ends (pre @ post)) = length (failures (pre @ post))"
    "failures (pre @ post) = [] \<longleftrightarrow> \<not> isl r"
    by (simp_all add: rs run_events_def)
  show ?thesis
  proof (cases r)
    case (Inl x)
    with e rs c show ?thesis
      by (simp add: renderHTML_def Let_def run_events_def)
  next
    case (Inr u)
    with e rs c show ?thesis
      by (simp add: renderHTML_def Let_def run_events_def)
  qed
qed

text \<open>The image stage ends its worker once, provided it gets past the read of the
  images directory.\<close>

lemma processImages_ends:
  "ends (run_events (processImages env queue cfg)) =
     (if isl (snd (readExisting env cfg)) then [] else [''image-processor''])"
proof -
  have rd: "ends (fst (readExisting env cfg)) = []"
    by (simp add: readExisting_def)
  have ru: "ends (fst (removeUnusedImages env cfg existingImages queue)) = []"
    for existingImages
    by (rule no_ends) (auto dest: removeUnusedImages_events)
  show ?thesis
  proof (cases rule: processImages_cases [of env cfg queue])
    case (Unread rd' e)
    with rd show ?thesis by (simp add: run_events_def)
  next
    case (Rejected rd' existingImages pre e post)
    with rd image_mapper_quiet(5,6) [OF Rejected(2)] show ?thesis
      by (simp add: run_events_def)
  next
    case (Resolved rd' existingImages pre post evs r)
    with rd ru [of existingImages] image_mapper_quiet(5,6) [OF Resolved(2)] show ?thesis
      by (simp add: run_events_def)
  qed
qed

lemma many_pages_chunks:
  "chunk many_pages 350 = [replicate 350 ''/page'', [''/page'']]"
  by (simp add: many_pages_def chunk_step)

lemma broken_template_renderHTML:
  "renderHTML broken_template_env many_pages h =
     ([CreateWorker ''html-writer'', WorkerRender h (replicate 350 ''/page''),
       WorkerRender h [''/page''], Settled 0 (Some ''template error''),
       WorkerEnd ''html-writer''],
      Inl ''template error'',
      [Settled 1 (Some ''template error''), WorkerEnd ''html-writer''])"
proof -
  have r: "render_res broken_template_env = (\<lambda>i. Some ''template error'')"
    "render_order broken_template_env = []"
    by (simp_all add: broken_template_env_def sample_env_def)
  have "render_stragglers broken_template_env [] [1] =
      [Settled 1 (Some ''template error''), WorkerEnd ''html-writer'']"
    by (subst render_stragglers.simps) (simp add: r without_def)
  moreover have "render_settle broken_template_env [] [0, 1] =
      ([Settled 0 (Some ''template error''), WorkerEnd ''html-writer''], Inl ''template error'',
       render_stragglers broken_template_env [] [1])"
    by (subst render_settle.simps) (simp add: r without_def)
  moreover have "[0..<length (chunk many_pages 350)] = [0, 1]"
    by (simp add: many_pages_chunks upt_rec)
  ultimately show ?thesis
    by (simp add: renderHTML_def Let_def r many_pages_chunks)
qed

subsection \<open>Shutdown of the workers\<close>

text \<open>C5 (the code departs from the claim): with a render queue of 351 pages, hence two
  chunks, and a worker that rejects both calls, the HTML stage rejects and
  \<open>worker.end\<close> is invoked twice, once in the \<open>catch\<close> block of each chunk; and when the
  read of the images directory is rejected, the image stage rejects without ever
  invoking \<open>worker.end\<close> on the worker it has created.\<close>

theorem worker_end_not_once:
  "length (chunk many_pages 350) = 2 \<and>
   run_result (renderHTML broken_template_env many_pages ''5f2c'') = Inl ''template error'' \<and>
   ends (run_events (renderHTML broken_template_env many_pages ''5f2c'')) =
     [''html-writer'', ''html-writer''] \<and>
   run_result (processImages (sample_env\<lparr>readdir_res := Inl ''ENOENT''\<rparr>) sample_images
     sample_config) = Inl ''ENOENT'' \<and>
   CreateWorker ''image-processor'' \<in> set (run_events
     (processImages (sample_env\<lparr>readdir_res := Inl ''ENOENT''\<rparr>) sample_images sample_config)) \<and>
   ends (run_events (processImages (sample_env\<lparr>readdir_res := Inl ''ENOENT''\<rparr>) sample_images
     sample_config)) = []"
proof -
  have "processImages (sample_env\<lparr>readdir_res := Inl ''ENOENT''\<rparr>) sample_images sample_config =
      ([CreateWorker ''image-processor'', ReadDir ''dist/assets/static''], Inl ''ENOENT'', [])"
    by (simp add: processImages_def readExisting_def sample_config_def)
  then show ?thesis
    by (simp add: broken_template_renderHTML many_pages_chunks run_events_def run_result_def)
qed

subsection \<open>Sequencing\<close>

lemma run_result_await [simp]: "run_result (await s m) = run_result m"
  by (cases m rule: prod_cases3) (simp add: await_def run_result_def split: sum.splits)

lemma run_result_bind:
  "run_result (bind_run m f) =
     (case run_result m of Inl e \<Rightarrow> Inl e | Inr x \<Rightarrow> run_result (f x))"
  by (cases m rule: prod_cases3)
    (simp add: bind_run_def run_result_def split: sum.splits prod.splits)

lemma events_await:
  "set (run_events (await s m)) =
     insert (Begin s) (set (run_events m)) \<union> (if isl (run_result m) then {} else {End s})"
  by (cases m rule: prod_cases3)
    (auto simp: await_def run_result_def run_events_def split: sum.splits)

lemma events_bind:
  "set (run_events (bind_run m f)) =
     set (run_events m) \<union> (case run_result m of Inl e \<Rightarrow> {} | Inr x \<Rightarrow> set (run_events (f x)))"
  by (cases m rule: prod_cases3)
    (auto simp: bind_run_def run_result_def run_events_def split: sum.splits prod.splits)

lemma events_ext [simp]: "run_events (ext r) = []"
  by (simp add: ext_def run_events_def split: option.splits)

lemma events_skip [simp]: "run_events skip = []"
  by (simp add: skip_def run_events_def)

lemma events_createApp [simp]: "run_events (createApp env) = []"
  by (simp add: createApp_def run_events_def)

lemma events_runWebpack:
  "ev \<in> set (run_events (runWebpack env)) \<Longrightarrow> \<exists>m. ev = Log m"
  by (auto simp: runWebpack_def run_events_def Let_def split: sum.splits if_splits)

lemma result_runWebpack [simp]: "run_result (runWebpack env) = compiler_res env"
  by (simp add: runWebpack_def run_result_def Let_def split: sum.splits)

lemma copy_all_events:
  "ev \<in> set (fst (copy_all env files)) \<Longrightarrow> \<exists>a b. ev = Copy a b"
  by (induction files arbitrary: ev) (auto split: option.splits prod.splits)

lemma events_processFiles:
  "ev \<in> set (run_events (processFiles env files)) \<Longrightarrow> (\<exists>a b. ev = Copy a b) \<or> (\<exists>m. ev = Log m)"
proof -
  assume a: "ev \<in> set (run_events (processFiles env files))"
  obtain evs r where c: "copy_all env files = (evs, r)"
    by (cases "copy_all env files") auto
  with copy_all_events [of _ env files] have "\<And>ev. ev \<in> set evs \<Longrightarrow> \<exists>a b. ev = Copy a b"
    by simp
  with a c show ?thesis
    by (cases r) (auto simp: processFiles_def run_events_def)
qed

lemma events_processImages:
  assumes "ev \<in> set (run_events (processImages env queue cfg))"
  shows "(\<exists>w. ev = CreateWorker w) \<or> (\<exists>d. ev = ReadDir d) \<or> (\<exists>l. ev = WriteLine l)
     \<or> (\<exists>c. ev = WorkerProcess c) \<or> (\<exists>i r. ev = Settled i r) \<or> (\<exists>w. ev = WorkerEnd w)
     \<or> (\<exists>d f. ev = Remove d f) \<or> (\<exists>m. ev = Log m)"
proof -
  have rd: "\<And>ev. ev \<in> set (fst (readExisting env cfg)) \<Longrightarrow> \<exists>d. ev = ReadDir d"
    by (simp add: readExisting_def split: if_splits)
  show ?thesis
  proof (cases rule: processImages_cases [of env cfg queue])
    case (Unread rd' e)
    with assms rd show ?thesis by (auto simp: run_events_def)
  next
    case (Rejected rd' existingImages pre e post)
    have "(\<exists>i r. ev = Settled i r) \<or> (\<exists>c. ev = WorkerProcess c) \<or> (\<exists>l. ev = WriteLine l)"
      if "ev \<in> set pre \<union> set post"
      using that image_mapper_events [of ev "process_res env" "length queue"
          "length (chunk queue 25)" "process_order env" "chunk queue 25" "cpus_logical env" 0]
      by (auto simp: Rejected(2) run_events_def)
    with assms rd Rejected(1,3) show ?thesis by (auto simp: run_events_def)
  next
    case (Resolved rd' existingImages pre post evs r)
    have "(\<exists>i r. ev = Settled i r) \<or> (\<exists>c. ev = WorkerProcess c) \<or> (\<exists>l. ev = WriteLine l)"
      if "ev \<in> set pre \<union> set post"
      using that image_mapper_events [of ev "process_res env" "length queue"
          "length (chunk queue 25)" "process_order env" "chunk queue 25" "cpus_logical env" 0]
      by (auto simp: Resolved(2) run_events_def)
    moreover have "(\<exists>d f. ev = Remove d f) \<or> (\<exists>m. ev = Log m)" if "ev \<in> set evs"
      using that removeUnusedImages_events [of ev env cfg existingImages queue] Resolved(3)
      by auto
    ultimately show ?thesis
      using assms rd Resolved(1,4) by (auto simp: run_events_def)
  qed
qed

lemma run_events_triple [simp]: "run_events (pre, r, post) = pre @ post"
  by (simp add: run_events_def)

lemma run_result_triple [simp]: "run_result (pre, r, post) = r"
  by (simp add: run_result_def)

lemma run_result_createApp [simp]: "run_result (createApp env) = createApp_res env"
  by (simp add: createApp_def)

lemma all_events_bind:
  assumes "\<forall>ev \<in> set (run_events m). P ev"
    and "\<And>x. run_result m = Inr x \<Longrightarrow> \<forall>ev \<in> set (run_events (f x)). P ev"
  shows "\<forall>ev \<in> set (run_events (bind_run m f)). P ev"
  using assms by (auto simp: events_bind split: sum.splits)

lemma all_events_await:
  assumes "\<forall>ev \<in> set (run_events m). P ev" and "P (Begin s)" and "P (End s)"
  shows "\<forall>ev \<in> set (run_events (await s m)). P ev"
  using assms by (auto simp: events_await split: if_splits)

lemma all_events_if:
  assumes "c \<Longrightarrow> \<forall>ev \<in> set (run_events m). P ev"
    and "\<not> c \<Longrightarrow> \<forall>ev \<in> set (run_events n). P ev"
  shows "\<forall>ev \<in> set (run_events (if c then m else n)). P ev"
  using assms by simp

subsection \<open>The content hash\<close>

text \<open>C3: every call of \<open>worker.render\<close> made during a build carries the same hash:
  the hash of the compiler's result when \<open>cacheBusting\<close> is set, and the literal
  \<open>gridsome\<close> otherwise, whatever the compiler's hash is.\<close>

theorem one_hash_for_every_chunk:
  "\<forall>(h, pages) \<in> set (rendered (run_events (build env))).
     \<exists>app stats_hash. createApp_res env = Inr app \<and> compiler_res env = Inr stats_hash \<and>
       h = (if cacheBusting (app_config app) then stats_hash else ''gridsome'')"
proof -
  define P where "P ev \<longleftrightarrow> (\<forall>h pages. ev = WorkerRender h pages \<longrightarrow>
      (\<exists>app stats_hash. createApp_res env = Inr app \<and> compiler_res env = Inr stats_hash \<and>
        h = (if cacheBusting (app_config app) then stats_hash else ''gridsome'')))" for ev
  have "\<forall>ev \<in> set (run_events (build env)). P ev"
    unfolding build_def
    by (intro all_events_bind all_events_await all_events_if)
      (auto simp: P_def hashString_def
        dest: renderHTML_events events_runWebpack events_processFiles events_processImages)
  then have "P (WorkerRender h pages)"
    if "(h, pages) \<in> set (rendered (run_events (build env)))" for h pages
    using that by (simp add: set_rendered)
  then show ?thesis
    unfolding P_def by blast
qed


lemma render_single:
  "render_res env 0 = None \<Longrightarrow>
   render_settle env sched [0] = ([Settled 0 None], Inr (), [])"
  by (subst render_settle.simps) (simp add: pick_def without_def split: list.splits)

lemma sample_renderHTML:
  "renderHTML sample_env [''/'', ''/about''] h =
     ([CreateWorker ''html-writer'', WorkerRender h [''/'', ''/about''], Settled 0 None,
       WorkerEnd ''html-writer'', Log (RenderedHTML 2)], Inr (), [])"
proof -
  have "chunk [''/'', ''/about''] 350 = [[''/'', ''/about'']]"
    by (rule chunk_short) simp_all
  moreover have "render_res sample_env 0 = None"
    by (simp add: sample_env_def)
  ultimately show ?thesis
    by (simp add: renderHTML_def render_single)
qed

lemma sample_build:
  "build sample_env =
     ([Begin CreateApp, End CreateApp, Begin BeforeBuild, End BeforeBuild,
       Begin RunWebpack, Log CompiledAssets, End RunWebpack,
       Begin ExecuteQueries, End ExecuteQueries,
       Begin RenderHTML, CreateWorker ''html-writer'',
       WorkerRender ''5f2c'' [''/'', ''/about''], Settled 0 None, WorkerEnd ''html-writer'',
       Log (RenderedHTML 2), End RenderHTML,
       Begin ProcessFiles, Copy ''src/favicon.png'' ''dist/favicon.png'', Log (ProcessedFiles 1),
       End ProcessFiles,
       Begin ProcessImages, CreateWorker ''image-processor'', ReadDir ''dist/assets/static'',
       WriteLine (Processing 2 0), WorkerProcess sample_images, Settled 0 None,
       WriteLine (Processing 2 100), WorkerEnd ''image-processor'', WriteLine (Processed 2),
       Remove ''dist/assets/static'' ''b.png'', Remove ''dist/assets/static'' ''c.png'',
       Log (RemovedImages 2), End ProcessImages,
       Begin CopyStatic, End CopyStatic, Begin AfterBuild, End AfterBuild,
       Begin RemoveManifests, End RemoveManifests, Log Warnings, Log Finished],
      Inr sample_app, [])"
proof -
  have e: "createApp_res sample_env = Inr sample_app" "beforeBuild_res sample_env = None"
    "isTTY sample_env" "compiler_res sample_env = Inr ''5f2c''"
    "createRenderQueue_res sample_env = [''/'', ''/about'']"
    "executeQueries_res sample_env = None" "copy_res sample_env = (\<lambda>src dest. None)"
    "staticDir_exists sample_env" "afterBuild_res sample_env = None"
    "removeManifests_res sample_env = None"
    by (simp_all add: sample_env_def)
  have a: "app_config sample_app = sample_config" "images_queue sample_app = sample_images"
    "files_queue sample_app = [\<lparr>filePath = ''src/favicon.png'', destPath = ''dist/favicon.png''\<rparr>]"
    by (simp_all add: sample_app_def)
  have c: "\<not> emptyOutputDir sample_config" "cacheBusting sample_config"
    by (simp_all add: sample_config_def)
  show ?thesis
    by (simp add: build_def e a c bind_run_def await_def createApp_def ext_def runWebpack_def skip_def
        hashString_def sample_renderHTML processFiles_def sample_processImages)
qed

theorem one_hash_for_every_chunk_witness:
  "(''5f2c'', [''/'', ''/about'']) \<in> set (rendered (run_events (build sample_env))) \<and>
   cacheBusting (app_config sample_app) \<and>
   (\<exists>app stats_hash. createApp_res sample_env = Inr app \<and>
      compiler_res sample_env = Inr stats_hash \<and>
      ''5f2c'' = (if cacheBusting (app_config app) then stats_hash else ''gridsome''))"
proof -
  have a: "(''5f2c'', [''/'', ''/about'']) \<in> set (rendered (run_events (build sample_env)))"
    by (simp add: sample_build)
  have "cacheBusting (app_config sample_app)"
    by (simp add: sample_app_def sample_config_def)
  with a one_hash_for_every_chunk [of sample_env] show ?thesis
    by blast
qed

subsection \<open>The order of the stages\<close>

lemma in_order_append:
  "in_order xs True ms \<Longrightarrow> in_order ys resolved ms' \<Longrightarrow> in_order (xs @ ys) resolved (ms @ ms')"
  by (induction xs True ms rule: in_order.induct) simp_all

lemma in_order_stopped:
  "in_order xs False ms \<Longrightarrow> in_order (xs @ ys) False ms"
  by (induction xs False ms rule: in_order.induct) simp_all

lemma markers_await:
  "markers (fst m) = [] \<Longrightarrow>
   markers (fst (await s m)) = (if isl (run_result m) then [Begin s] else [Begin s, End s])"
  by (cases m rule: prod_cases3) (simp add: await_def split: sum.splits)

lemma in_order_await:
  "markers (fst m) = [] \<Longrightarrow>
   in_order [s] (\<not> isl (run_result (await s m))) (markers (fst (await s m)))"
  by (simp add: markers_await)

lemma in_order_bind:
  assumes "in_order xs (\<not> isl (run_result m)) (markers (fst m))"
    and "\<And>x. run_result m = Inr x \<Longrightarrow>
      in_order (ys x) (\<not> isl (run_result (f x))) (markers (fst (f x)))"
  shows "in_order (xs @ (case run_result m of Inl e \<Rightarrow> [] | Inr x \<Rightarrow> ys x))
     (\<not> isl (run_result (bind_run m f))) (markers (fst (bind_run m f)))"
proof (cases m rule: prod_cases3)
  case (fields pre r post)
  show ?thesis
  proof (cases r)
    case (Inl e)
    with fields assms(1) show ?thesis
      by (simp add: bind_run_def)
  next
    case (Inr x)
    obtain pre' r' post' where f: "f x = (pre', r', post')"
      using prod_cases3 by blast
    from assms(1) fields Inr have "in_order xs True (markers pre)" by simp
    moreover from assms(2) [of x] fields Inr f
    have "in_order (ys x) (\<not> isl r') (markers pre')" by simp
    ultimately have "in_order (xs @ ys x) (\<not> isl r') (markers pre @ markers pre')"
      by (rule in_order_append)
    with fields Inr f show ?thesis
      by (simp add: bind_run_def)
  qed
qed

lemma in_order_bind_const:
  assumes "in_order xs (\<not> isl (run_result m)) (markers (fst m))"
    and "\<And>x. run_result m = Inr x \<Longrightarrow>
      in_order ys (\<not> isl (run_result (f x))) (markers (fst (f x)))"
  shows "in_order (xs @ ys) (\<not> isl (run_result (bind_run m f))) (markers (fst (bind_run m f)))"
proof (cases "run_result m")
  case (Inl e)
  with assms(1) have "in_order (xs @ []) False (markers (fst (bind_run m f)))"
    "isl (run_result (bind_run m f))"
    using in_order_bind [of xs m "\<lambda>x. ys" f] assms(2)
    by (simp_all add: run_result_bind)
  then show ?thesis
    using in_order_stopped [of xs "markers (fst (bind_run m f))" ys] by simp
next
  case (Inr x)
  with in_order_bind [of xs m "\<lambda>x. ys" f] assms show ?thesis
    by simp
qed


lemma in_order_optional:
  "markers (fst m) = [] \<Longrightarrow>
   in_order (if c then [s] else []) (\<not> isl (run_result (if c then await s m else skip)))
     (markers (fst (if c then await s m else skip)))"
  by (simp add: markers_await skip_def)

lemma quiet_ext [simp]: "markers (fst (ext r)) = []" "markers (snd (snd (ext r))) = []"
  by (simp_all add: ext_def split: option.splits)

lemma quiet_createApp [simp]:
  "markers (fst (createApp env)) = []" "markers (snd (snd (createApp env))) = []"
  by (simp_all add: createApp_def)

lemma quiet_run:
  assumes "\<And>ev. ev \<in> set (run_events m) \<Longrightarrow> \<forall>s. ev \<noteq> Begin s \<and> ev \<noteq> End s"
  shows "markers (fst m) = []" "markers (snd (snd m)) = []"
proof -
  from assms have "\<And>s. Begin s \<notin> set (fst m) \<and> End s \<notin> set (fst m)"
    "\<And>s. Begin s \<notin> set (snd (snd m)) \<and> End s \<notin> set (snd (snd m))"
    by (auto simp: run_events_def)
  then show "markers (fst m) = []" "markers (snd (snd m)) = []"
    by (simp_all add: no_markers)
qed

lemma quiet_runWebpack [simp]:
  "markers (fst (runWebpack env)) = []" "markers (snd (snd (runWebpack env))) = []"
  by (rule quiet_run; auto dest: events_runWebpack)+

lemma quiet_renderHTML [simp]:
  "markers (fst (renderHTML env renderQueue hash)) = []"
  "markers (snd (snd (renderHTML env renderQueue hash))) = []"
  by (rule quiet_run; auto dest: renderHTML_events)+

lemma quiet_processFiles [simp]:
  "markers (fst (processFiles env files)) = []"
  "markers (snd (snd (processFiles env files))) = []"
  by (rule quiet_run; auto dest: events_processFiles)+

lemma quiet_processImages [simp]:
  "markers (fst (processImages env queue cfg)) = []"
  "markers (snd (snd (processImages env queue cfg))) = []"
  by (rule quiet_run; auto dest: events_processImages)+

lemma post_await [simp]: "snd (snd (await s m)) = snd (snd m)"
  by (cases m rule: prod_cases3) (simp add: await_def split: sum.splits)

lemma quiet_post_bind:
  assumes "markers (snd (snd m)) = []" and "\<And>x. markers (snd (snd (f x))) = []"
  shows "markers (snd (snd (bind_run m f))) = []"
proof (cases m rule: prod_cases3)
  case (fields pre r post)
  show ?thesis
  proof (cases r)
    case (Inl e)
    with fields assms(1) show ?thesis by (simp add: bind_run_def)
  next
    case (Inr x)
    obtain pre' r' post' where f: "f x = (pre', r', post')"
      using prod_cases3 by blast
    with assms(2) [of x] have "markers post' = []" by simp
    with fields Inr f assms(1) show ?thesis by (simp add: bind_run_def)
  qed
qed

lemma pipeline_nested:
  "pipeline env =
     [CreateApp] @
     (case run_result (await CreateApp (createApp env)) of
        Inl e \<Rightarrow> []
      | Inr app \<Rightarrow>
          [BeforeBuild] @ (if emptyOutputDir (app_config app) then [EmptyOutputDir] else []) @
          [RunWebpack] @ [ExecuteQueries] @ [RenderHTML] @ [ProcessFiles] @ [ProcessImages] @
          (if staticDir_exists env then [CopyStatic] else []) @ [AfterBuild] @
          [RemoveManifests] @ [])"
  by (simp add: pipeline_def split: sum.splits)

lemma settled_bind:
  assumes "\<not> isl (run_result m) \<longrightarrow> snd (snd m) = []"
    and "\<And>x. \<not> isl (run_result (f x)) \<longrightarrow> snd (snd (f x)) = []"
  shows "\<not> isl (run_result (bind_run m f)) \<longrightarrow> snd (snd (bind_run m f)) = []"
proof (cases m rule: prod_cases3)
  case (fields pre r post)
  show ?thesis
  proof (cases r)
    case (Inl e)
    with fields show ?thesis by (simp add: bind_run_def)
  next
    case (Inr x)
    obtain pre' r' post' where f: "f x = (pre', r', post')"
      using prod_cases3 by blast
    with assms(2) [of x] have "\<not> isl r' \<longrightarrow> post' = []" by simp
    with fields Inr f assms(1) show ?thesis by (simp add: bind_run_def)
  qed
qed

lemma settled_ext [simp]: "snd (snd (ext r)) = []"
  by (simp add: ext_def split: option.splits)

lemma settled_renderHTML:
  "\<not> isl (run_result (renderHTML env renderQueue hash)) \<longrightarrow>
   snd (snd (renderHTML env renderQueue hash)) = []"
proof -
  obtain pre r post where rs: "render_settle env (render_order env)
      [0..<length (chunk renderQueue 350)] = (pre, r, post)"
    using prod_cases3 by blast
  show ?thesis
  proof (cases r)
    case (Inl e)
    with rs show ?thesis by (simp add: renderHTML_def Let_def)
  next
    case (Inr u)
    with rs render_settle_resolved [of env "render_order env"
        "[0..<length (chunk renderQueue 350)]" u]
    show ?thesis by (simp add: renderHTML_def Let_def)
  qed
qed

lemma settled_processImages:
  "\<not> isl (run_result (processImages env queue cfg)) \<longrightarrow>
   snd (snd (processImages env queue cfg)) = []"
proof (cases rule: processImages_cases [of env cfg queue])
  case (Unread rd e)
  then show ?thesis by simp
next
  case (Rejected rd existingImages pre e post)
  then show ?thesis by simp
next
  case (Resolved rd existingImages pre post evs r)
  from pMap_result [where call = "\<lambda>c. [WorkerProcess c]"
      and cont = "\<lambda>progress. (Suc progress, [WriteLine (Processing (length queue)
          (percent (Suc progress) (length (chunk queue 25))))])"
      and res = "process_res env" and sched = "process_order env" and items = "chunk queue 25"
      and concurrency = "cpus_logical env" and st = 0]
  have "post = []" by (simp add: Resolved(2))
  with Resolved(4) show ?thesis by simp
qed

lemma bind_run_assoc: "bind_run (bind_run m f) g = bind_run m (\<lambda>x. bind_run (f x) g)"
proof (cases m rule: prod_cases3)
  case (fields pre r post)
  show ?thesis
  proof (cases r)
    case (Inl e)
    with fields show ?thesis by (simp add: bind_run_def)
  next
    case (Inr x)
    obtain pre' r' post' where f: "f x = (pre', r', post')"
      using prod_cases3 by blast
    show ?thesis
    proof (cases r')
      case (Inl e)
      with fields Inr f show ?thesis by (simp add: bind_run_def)
    next
      case r': (Inr y)
      obtain pre'' r'' post'' where g: "g y = (pre'', r'', post'')"
        using prod_cases3 by blast
      with fields Inr f r' show ?thesis by (simp add: bind_run_def)
    qed
  qed
qed

lemma bind_run_cong:
  assumes "\<And>x. run_result m = Inr x \<Longrightarrow> f x = g x"
  shows "bind_run m f = bind_run m g"
proof (cases m rule: prod_cases3)
  case (fields pre r post)
  with assms show ?thesis
    by (cases r) (simp_all add: bind_run_def)
qed

lemma await_forget:
  "bind_run (await s (forget m)) (\<lambda>u. k) = bind_run (await s m) (\<lambda>x. k)"
proof (cases m rule: prod_cases3)
  case (fields pre r post)
  then show ?thesis
    by (cases r) (simp_all add: bind_run_def await_def forget_def)
qed

lemma bind_run_skip [simp]: "bind_run skip f = f ()"
  by (cases "f ()" rule: prod_cases3) (simp add: bind_run_def skip_def)

lemma barrier_run_append:
  "bind_run (barrier_run (xs @ ys)) k =
   bind_run (barrier_run xs) (\<lambda>u. bind_run (barrier_run ys) k)"
proof (induction xs)
  case Nil
  have "barrier_run [] = skip" by (simp add: skip_def)
  then show ?case by simp
next
  case (Cons p xs)
  then show ?case by (simp add: bind_run_assoc)
qed

lemma barrier_run_Cons:
  "bind_run (barrier_run (p # rest)) k =
   bind_run (await (fst p) (snd p)) (\<lambda>u. bind_run (barrier_run rest) k)"
  by (simp add: bind_run_assoc)

lemma barrier_run_Nil: "bind_run (barrier_run []) k = k ()"
proof -
  have "barrier_run [] = skip" by (simp add: skip_def)
  then show ?thesis by simp
qed

lemma bind_run_Inl [simp]: "bind_run (pre, Inl e, post) f = (pre, Inl e, post)"
  by (simp add: bind_run_def)

lemma bind_run_Inr:
  "bind_run (pre, Inr x, post) f =
     (case f x of (pre', r, post') \<Rightarrow> (pre @ pre', r, post @ post'))"
  by (simp add: bind_run_def)

lemma await_Inl [simp]: "await s (pre, Inl e, post) = (Begin s # pre, Inl e, post)"
  by (simp add: await_def)

lemma await_Inr [simp]: "await s (pre, Inr x, post) = (Begin s # pre @ [End s], Inr x, post)"
  by (simp add: await_def)

lemma bind_run_unit [simp]: "bind_run ([], Inr x, []) f = f x"
  by (cases "f x" rule: prod_cases3) (simp add: bind_run_def)

lemma await_value:
  "run_result m = Inr x \<Longrightarrow>
   bind_run (await s m) f = bind_run (await s (forget m)) (\<lambda>u. f x)"
  by (cases m rule: prod_cases3) (simp add: forget_def bind_run_def)

lemma await_rejected:
  "run_result m = Inl e \<Longrightarrow> bind_run (await s m) f = (Begin s # fst m, Inl e, snd (snd m))"
  "run_result m = Inl e \<Longrightarrow>
   bind_run (await s (forget m)) g = (Begin s # fst m, Inl e, snd (snd m))"
  by (cases m rule: prod_cases3; simp add: forget_def)+

text \<open>The exported function runs its plan: the stages of the plan with a barrier
  between them, and then the closing log lines.\<close>

lemma build_runs_plan:
  "build env =
     bind_run (barrier_run (stage_runs env))
       (\<lambda>u. case createApp_res env of
          Inl e \<Rightarrow> ([], Inl e, [])
        | Inr app \<Rightarrow> ([Log Warnings, Log Finished], Inr app, []))"
proof (cases "createApp_res env")
  case (Inl e)
  then show ?thesis
    by (simp add: build_def stage_runs_def createApp_def forget_def)
next
  case (Inr app)
  then have a: "run_result (createApp env) = Inr app" by simp
  show ?thesis
  proof (cases "compiler_res env")
    case (Inl e)
    then have w: "run_result (runWebpack env) = Inl e" by simp
    show ?thesis
      unfolding build_def stage_runs_def
      by (cases "emptyOutputDir (app_config app)"; cases "staticDir_exists env")
        (simp_all add: Inr Inl await_value [OF a] await_rejected [OF w] bind_run_assoc)
  next
    case h: (Inr stats_hash)
    then have w: "run_result (runWebpack env) = Inr stats_hash" by simp
    show ?thesis
      unfolding build_def stage_runs_def
      by (cases "emptyOutputDir (app_config app)"; cases "staticDir_exists env")
        (simp_all add: Inr h await_value [OF a] await_value [OF w] bind_run_assoc)
  qed
qed


lemma barrier_resolved:
  "\<forall>p \<in> set ps. run_result (snd p) = Inr () \<and> snd (snd (snd p)) = [] \<Longrightarrow>
   barrier_run ps = (concat (map segment ps), Inr (), [])"
proof (induction ps)
  case Nil
  then show ?case by simp
next
  case (Cons p ps)
  obtain s pre r post where p: "p = (s, pre, r, post)"
    by (cases p rule: prod_cases4) auto
  with Cons.prems have "r = Inr ()" "post = []" by simp_all
  with Cons p show ?case
    by (simp add: segment_def bind_run_Inr)
qed

lemma barrier_rejected:
  assumes "\<forall>p \<in> set done. run_result (snd p) = Inr () \<and> snd (snd (snd p)) = []"
    and "run_result m = Inl e"
  shows "barrier_run (done @ (s, m) # rest) =
     (concat (map segment done) @ Begin s # fst m, Inl e, snd (snd m))"
  using assms(1)
proof (induction "done")
  case Nil
  from assms(2) show ?case
    by (cases m rule: prod_cases3) simp
next
  case (Cons p ps)
  obtain s' pre r post where p: "p = (s', pre, r, post)"
    by (cases p rule: prod_cases4) auto
  with Cons.prems have "r = Inr ()" "post = []" by simp_all
  with Cons p show ?case
    by (simp add: segment_def bind_run_Inr)
qed

lemma forget_result [simp]: "run_result (forget m) = map_sum id (\<lambda>x. ()) (run_result m)"
  by (cases m rule: prod_cases3) (simp add: forget_def)

lemma forget_post [simp]: "snd (snd (forget m)) = snd (snd m)"
  by (cases m rule: prod_cases3) (simp add: forget_def)

lemma post_runWebpack [simp]: "snd (snd (runWebpack env)) = []"
  by (simp add: runWebpack_def Let_def split: sum.splits)

lemma post_createApp [simp]: "snd (snd (createApp env)) = []"
  by (simp add: createApp_def)

lemma post_processFiles [simp]: "snd (snd (processFiles env files)) = []"
  by (simp add: processFiles_def split: prod.splits sum.splits)

lemma plan_settled:
  assumes "p \<in> set (stage_runs env)" and "run_result (snd p) = Inr ()"
  shows "snd (snd (snd p)) = []"
proof -
  have r: "snd (snd (renderHTML env q h)) = []" if "run_result (renderHTML env q h) = Inr ()"
    for q h using that settled_renderHTML [of env q h] by simp
  have i: "snd (snd (processImages env q cfg)) = []"
    if "run_result (processImages env q cfg) = Inr ()"
    for q cfg using that settled_processImages [of env q cfg] by simp
  show ?thesis
  proof (cases "createApp_res env")
    case (Inl e)
    with assms show ?thesis by (auto simp: stage_runs_def)
  next
    case (Inr app)
    with assms show ?thesis
      by (cases "compiler_res env") (auto simp: stage_runs_def r i split: if_splits)
  qed
qed

lemma plan_stages: "map fst (stage_runs env) = pipeline env"
  by (simp add: stage_runs_def pipeline_def split: sum.splits)


lemma first_rejection:
  fixes ps :: "(stage \<times> unit run) list"
  shows "(\<forall>p \<in> set ps. run_result (snd p) = Inr ()) \<or>
     (\<exists>done s m rest e. ps = done @ (s, m) # rest \<and>
        (\<forall>p \<in> set done. run_result (snd p) = Inr ()) \<and> run_result m = Inl e)"
proof (cases "\<exists>p \<in> set ps. run_result (snd p) \<noteq> Inr ()")
  case True
  then obtain ys x zs where x: "ps = ys @ x # zs" "run_result (snd x) \<noteq> Inr ()"
    "\<forall>y \<in> set ys. \<not> run_result (snd y) \<noteq> Inr ()"
    using split_list_first_prop [of ps "\<lambda>p. run_result (snd p) \<noteq> Inr ()"] by blast
  from x(2) obtain e where "run_result (snd x) = Inl e"
    by (cases "run_result (snd x)") auto
  with x(1,3) have "ps = ys @ (fst x, snd x) # zs \<and>
      (\<forall>p \<in> set ys. run_result (snd p) = Inr ()) \<and> run_result (snd x) = Inl e"
    by simp
  then show ?thesis by blast
next
  case False
  then show ?thesis by blast
qed

text \<open>C7: a build runs the stages of its plan one after the other. If the stages before
  some stage resolve and that stage rejects, the build rejects with the same error and its
  events are, in order, the complete work of each stage before it, bracketed by its call
  and its return, and then the call and the work of the rejecting stage: no later stage
  is called and nothing of its work happens. If every stage resolves, the build resolves
  with the application, its events are the bracketed work of every stage in order
  followed by the closing log lines, and nothing is left pending. Every build is one of
  these two. In either case each
  stage begins only after the one before it has ended, and nothing that still happens
  after a rejection begins a stage.\<close>

theorem stages_run_in_order:
  "map fst (stage_runs env) = pipeline env \<and>
   ((\<forall>p \<in> set (stage_runs env). run_result (snd p) = Inr ()) \<or>
    (\<exists>done s m rest e. stage_runs env = done @ (s, m) # rest \<and>
       (\<forall>p \<in> set done. run_result (snd p) = Inr ()) \<and> run_result m = Inl e)) \<and>
   (\<forall>done s m rest e.
      stage_runs env = done @ (s, m) # rest \<and>
      (\<forall>p \<in> set done. run_result (snd p) = Inr ()) \<and> run_result m = Inl e \<longrightarrow>
      run_result (build env) = Inl e \<and>
      fst (build env) = concat (map segment done) @ Begin s # fst m \<and>
      snd (snd (build env)) = snd (snd m)) \<and>
   ((\<forall>p \<in> set (stage_runs env). run_result (snd p) = Inr ()) \<longrightarrow>
      run_result (build env) = createApp_res env \<and> \<not> isl (createApp_res env) \<and>
      fst (build env) = concat (map segment (stage_runs env)) @ [Log Warnings, Log Finished] \<and>
      snd (snd (build env)) = []) \<and>
   in_order (pipeline env) (\<not> isl (run_result (build env))) (markers (fst (build env))) \<and>
   markers (snd (snd (build env))) = [] \<and>
   (\<not> isl (run_result (build env)) \<longrightarrow> snd (snd (build env)) = [])"
proof -
  have rejected: "run_result (build env) = Inl e \<and>
      fst (build env) = concat (map segment done) @ Begin s # fst m \<and>
      snd (snd (build env)) = snd (snd m)"
    if a: "stage_runs env = done @ (s, m) # rest \<and>
      (\<forall>p \<in> set done. run_result (snd p) = Inr ()) \<and> run_result m = Inl e"
    for "done" s m rest e
  proof -
    from a have "\<forall>p \<in> set done. run_result (snd p) = Inr () \<and> snd (snd (snd p)) = []"
      using plan_settled [of _ env] by auto
    with a have b: "barrier_run (stage_runs env) =
        (concat (map segment done) @ Begin s # fst m, Inl e, snd (snd m))"
      by (simp add: barrier_rejected)
    show ?thesis
      by (simp add: build_runs_plan b)
  qed
  have resolved: "run_result (build env) = createApp_res env \<and> \<not> isl (createApp_res env) \<and>
      fst (build env) = concat (map segment (stage_runs env)) @ [Log Warnings, Log Finished] \<and>
      snd (snd (build env)) = []"
    if a: "\<forall>p \<in> set (stage_runs env). run_result (snd p) = Inr ()"
  proof -
    from a have "\<forall>p \<in> set (stage_runs env).
        run_result (snd p) = Inr () \<and> snd (snd (snd p)) = []"
      using plan_settled [of _ env] by auto
    then have b: "barrier_run (stage_runs env) =
        (concat (map segment (stage_runs env)), Inr (), [])"
      by (rule barrier_resolved)
    from a have "run_result (forget (createApp env)) = Inr ()"
      by (simp add: stage_runs_def)
    then obtain app where c: "createApp_res env = Inr app"
      by (cases "createApp_res env") simp_all
    then show ?thesis
      by (simp add: build_runs_plan b bind_run_Inr)
  qed
  have marks: "in_order (pipeline env) (\<not> isl (run_result (build env))) (markers (fst (build env)))"
    unfolding build_def pipeline_nested
    apply (rule in_order_bind)
     apply (rule in_order_await, simp)
    apply (rule in_order_bind_const)
     apply (rule in_order_await, simp)
    apply (rule in_order_bind_const)
     apply (rule in_order_optional, simp)
    apply (rule in_order_bind_const)
     apply (rule in_order_await, simp)
    apply (rule in_order_bind_const)
     apply (rule in_order_await, simp)
    apply (rule in_order_bind_const)
     apply (rule in_order_await, simp)
    apply (rule in_order_bind_const)
     apply (rule in_order_await, simp)
    apply (rule in_order_bind_const)
     apply (rule in_order_await, simp)
    apply (rule in_order_bind_const)
     apply (rule in_order_optional, simp)
    apply (rule in_order_bind_const)
     apply (rule in_order_await, simp)
    apply (rule in_order_bind_const)
     apply (rule in_order_await, simp)
    apply simp
    done
  have quiet: "markers (snd (snd (build env))) = []"
    unfolding build_def
    by (intro quiet_post_bind) (simp_all add: skip_def)
  have settled: "\<not> isl (run_result (build env)) \<longrightarrow> snd (snd (build env)) = []"
    unfolding build_def
    by (intro settled_bind)
      (simp_all add: skip_def createApp_def runWebpack_def Let_def processFiles_def
        settled_renderHTML settled_processImages split: sum.splits prod.splits)
  from plan_stages [of env] first_rejection [of "stage_runs env"]
    rejected resolved marks quiet settled show ?thesis
    by blast
qed
lemma failing_queries_build:
  "build (sample_env\<lparr>executeQueries_res := Some ''query failed''\<rparr>) =
     ([Begin CreateApp, End CreateApp, Begin BeforeBuild, End BeforeBuild,
       Begin RunWebpack, Log CompiledAssets, End RunWebpack, Begin ExecuteQueries],
      Inl ''query failed'', [])"
proof -
  have e: "createApp_res sample_env = Inr sample_app" "beforeBuild_res sample_env = None"
    "isTTY sample_env" "compiler_res sample_env = Inr ''5f2c''"
    by (simp_all add: sample_env_def)
  have c: "\<not> emptyOutputDir (app_config sample_app)"
    by (simp add: sample_app_def sample_config_def)
  show ?thesis
    by (simp add: build_def e c bind_run_def await_def createApp_def ext_def runWebpack_def
        skip_def)
qed


lemma renderHTML_one_chunk:
  assumes "render_res env 0 = None"
  shows "renderHTML env [''/'', ''/about''] h =
     ([CreateWorker ''html-writer'', WorkerRender h [''/'', ''/about''], Settled 0 None,
       WorkerEnd ''html-writer'', Log (RenderedHTML 2)], Inr (), [])"
proof -
  have "chunk [''/'', ''/about''] 350 = [[''/'', ''/about'']]"
    by (rule chunk_short) simp_all
  with assms show ?thesis
    by (simp add: renderHTML_def render_single)
qed

lemma unwritable_plan:
  "stage_runs unwritable_env =
     [(CreateApp, ([], Inr (), [])), (BeforeBuild, ([], Inr (), [])),
      (RunWebpack, ([Log CompiledAssets], Inr (), [])), (ExecuteQueries, ([], Inr (), [])),
      (RenderHTML,
       ([CreateWorker ''html-writer'', WorkerRender ''5f2c'' [''/'', ''/about''],
         Settled 0 None, WorkerEnd ''html-writer'', Log (RenderedHTML 2)], Inr (), []))]
     @ (ProcessFiles, ([Copy ''src/favicon.png'' ''dist/favicon.png''], Inl ''EACCES'', []))
     # [(ProcessImages, processImages unwritable_env sample_images sample_config),
        (CopyStatic, ([], Inl ''EACCES'', [])), (AfterBuild, ([], Inr (), [])),
        (RemoveManifests, ([], Inr (), []))]"
proof -
  have e: "createApp_res unwritable_env = Inr sample_app"
    "beforeBuild_res unwritable_env = None" "isTTY unwritable_env"
    "compiler_res unwritable_env = Inr ''5f2c''"
    "createRenderQueue_res unwritable_env = [''/'', ''/about'']"
    "executeQueries_res unwritable_env = None"
    "copy_res unwritable_env = (\<lambda>src dest. Some ''EACCES'')"
    "staticDir_exists unwritable_env" "afterBuild_res unwritable_env = None"
    "removeManifests_res unwritable_env = None" "render_res unwritable_env 0 = None"
    by (simp_all add: unwritable_env_def sample_env_def)
  have a: "app_config sample_app = sample_config" "images_queue sample_app = sample_images"
    "files_queue sample_app = [\<lparr>filePath = ''src/favicon.png'', destPath = ''dist/favicon.png''\<rparr>]"
    by (simp_all add: sample_app_def)
  have c: "\<not> emptyOutputDir sample_config" "cacheBusting sample_config"
    by (simp_all add: sample_config_def)
  show ?thesis
    by (simp add: stage_runs_def e a c createApp_def forget_def ext_def runWebpack_def
        hashString_def renderHTML_one_chunk processFiles_def)
qed

lemma sample_plan:
  "stage_runs sample_env =
     [(CreateApp, ([], Inr (), [])), (BeforeBuild, ([], Inr (), [])),
      (RunWebpack, ([Log CompiledAssets], Inr (), [])), (ExecuteQueries, ([], Inr (), [])),
      (RenderHTML,
       ([CreateWorker ''html-writer'', WorkerRender ''5f2c'' [''/'', ''/about''],
         Settled 0 None, WorkerEnd ''html-writer'', Log (RenderedHTML 2)], Inr (), [])),
      (ProcessFiles,
       ([Copy ''src/favicon.png'' ''dist/favicon.png'', Log (ProcessedFiles 1)], Inr (), [])),
      (ProcessImages,
       ([CreateWorker ''image-processor'', ReadDir ''dist/assets/static'',
         WriteLine (Processing 2 0), WorkerProcess sample_images, Settled 0 None,
         WriteLine (Processing 2 100), WorkerEnd ''image-processor'', WriteLine (Processed 2),
         Remove ''dist/assets/static'' ''b.png'', Remove ''dist/assets/static'' ''c.png'',
         Log (RemovedImages 2)], Inr (), [])),
      (CopyStatic, ([], Inr (), [])), (AfterBuild, ([], Inr (), [])),
      (RemoveManifests, ([], Inr (), []))]"
proof -
  have e: "createApp_res sample_env = Inr sample_app" "beforeBuild_res sample_env = None"
    "isTTY sample_env" "compiler_res sample_env = Inr ''5f2c''"
    "createRenderQueue_res sample_env = [''/'', ''/about'']"
    "executeQueries_res sample_env = None" "copy_res sample_env = (\<lambda>src dest. None)"
    "staticDir_exists sample_env" "afterBuild_res sample_env = None"
    "removeManifests_res sample_env = None" "render_res sample_env 0 = None"
    by (simp_all add: sample_env_def)
  have a: "app_config sample_app = sample_config" "images_queue sample_app = sample_images"
    "files_queue sample_app = [\<lparr>filePath = ''src/favicon.png'', destPath = ''dist/favicon.png''\<rparr>]"
    by (simp_all add: sample_app_def)
  have c: "\<not> emptyOutputDir sample_config" "cacheBusting sample_config"
    by (simp_all add: sample_config_def)
  show ?thesis
    by (simp add: stage_runs_def e a c createApp_def forget_def ext_def runWebpack_def
        hashString_def renderHTML_one_chunk processFiles_def sample_processImages)
qed


theorem stages_run_in_order_witness:
  "pipeline sample_env =
     [CreateApp, BeforeBuild, RunWebpack, ExecuteQueries, RenderHTML, ProcessFiles,
      ProcessImages, CopyStatic, AfterBuild, RemoveManifests] \<and>
   map fst (stage_runs sample_env) = pipeline sample_env \<and>
   run_result (build sample_env) = Inr sample_app \<and>
   snd (snd (build sample_env)) = [] \<and>
   fst (build sample_env) =
     concat (map segment (stage_runs sample_env)) @ [Log Warnings, Log Finished] \<and>
   in_order (pipeline sample_env) True (markers (fst (build sample_env))) \<and>
   markers (fst (build sample_env)) =
     [Begin CreateApp, End CreateApp, Begin BeforeBuild, End BeforeBuild,
      Begin RunWebpack, End RunWebpack, Begin ExecuteQueries, End ExecuteQueries,
      Begin RenderHTML, End RenderHTML, Begin ProcessFiles, End ProcessFiles,
      Begin ProcessImages, End ProcessImages, Begin CopyStatic, End CopyStatic,
      Begin AfterBuild, End AfterBuild, Begin RemoveManifests, End RemoveManifests] \<and>
   run_result (build unwritable_env) = Inl ''EACCES'' \<and>
   fst (build unwritable_env) =
     [Begin CreateApp, End CreateApp, Begin BeforeBuild, End BeforeBuild,
      Begin RunWebpack, Log CompiledAssets, End RunWebpack,
      Begin ExecuteQueries, End ExecuteQueries,
      Begin RenderHTML, CreateWorker ''html-writer'',
      WorkerRender ''5f2c'' [''/'', ''/about''], Settled 0 None, WorkerEnd ''html-writer'',
      Log (RenderedHTML 2), End RenderHTML,
      Begin ProcessFiles, Copy ''src/favicon.png'' ''dist/favicon.png''] \<and>
   snd (snd (build unwritable_env)) = [] \<and>
   run_result (build (sample_env\<lparr>executeQueries_res := Some ''query failed''\<rparr>)) =
     Inl ''query failed'' \<and>
   in_order (pipeline (sample_env\<lparr>executeQueries_res := Some ''query failed''\<rparr>)) False
     (markers (fst (build (sample_env\<lparr>executeQueries_res := Some ''query failed''\<rparr>)))) \<and>
   markers (fst (build (sample_env\<lparr>executeQueries_res := Some ''query failed''\<rparr>))) =
     [Begin CreateApp, End CreateApp, Begin BeforeBuild, End BeforeBuild,
      Begin RunWebpack, End RunWebpack, Begin ExecuteQueries]"
proof -
  note t = stages_run_in_order [of sample_env]
  note u = stages_run_in_order [of unwritable_env]
  note q = stages_run_in_order [of "sample_env\<lparr>executeQueries_res := Some ''query failed''\<rparr>"]
  have p: "pipeline sample_env =
     [CreateApp, BeforeBuild, RunWebpack, ExecuteQueries, RenderHTML, ProcessFiles,
      ProcessImages, CopyStatic, AfterBuild, RemoveManifests]"
    by (simp add: pipeline_def sample_env_def sample_app_def sample_config_def)
  have t1: "map fst (stage_runs sample_env) = pipeline sample_env"
    by (rule conjunct1 [OF t])
  have "\<forall>p \<in> set (stage_runs sample_env). run_result (snd p) = Inr ()"
    by (simp add: sample_plan)
  with conjunct1 [OF conjunct2 [OF conjunct2 [OF conjunct2 [OF t]]]]
  have t2: "run_result (build sample_env) = createApp_res sample_env"
    "fst (build sample_env) =
      concat (map segment (stage_runs sample_env)) @ [Log Warnings, Log Finished]"
    "snd (snd (build sample_env)) = []"
    by simp_all
  have t3: "run_result (build sample_env) = Inr sample_app"
    using t2(1) by (simp add: sample_env_def)
  then have r: "\<not> isl (run_result (build sample_env))" by simp
  with conjunct1 [OF conjunct2 [OF conjunct2 [OF conjunct2 [OF conjunct2 [OF t]]]]]
  have t4: "in_order (pipeline sample_env) True (markers (fst (build sample_env)))"
    by simp
  have t5: "markers (fst (build sample_env)) =
     [Begin CreateApp, End CreateApp, Begin BeforeBuild, End BeforeBuild,
      Begin RunWebpack, End RunWebpack, Begin ExecuteQueries, End ExecuteQueries,
      Begin RenderHTML, End RenderHTML, Begin ProcessFiles, End ProcessFiles,
      Begin ProcessImages, End ProcessImages, Begin CopyStatic, End CopyStatic,
      Begin AfterBuild, End AfterBuild, Begin RemoveManifests, End RemoveManifests]"
    unfolding t2(2) by (simp add: sample_plan segment_def)
  let ?done = "[(CreateApp, ([], Inr (), [])), (BeforeBuild, ([], Inr (), [])),
      (RunWebpack, ([Log CompiledAssets], Inr (), [])), (ExecuteQueries, ([], Inr (), [])),
      (RenderHTML,
       ([CreateWorker ''html-writer'', WorkerRender ''5f2c'' [''/'', ''/about''],
         Settled 0 None, WorkerEnd ''html-writer'', Log (RenderedHTML 2)], Inr (), []))]"
  let ?m = "([Copy ''src/favicon.png'' ''dist/favicon.png''], Inl ''EACCES'', [])"
  let ?rest = "[(ProcessImages, processImages unwritable_env sample_images sample_config),
        (CopyStatic, ([], Inl ''EACCES'', [])), (AfterBuild, ([], Inr (), [])),
        (RemoveManifests, ([], Inr (), []))]"
  have h: "stage_runs unwritable_env = ?done @ (ProcessFiles, ?m) # ?rest \<and>
      (\<forall>p \<in> set ?done. run_result (snd p) = Inr ()) \<and> run_result ?m = Inl ''EACCES''"
    by (simp add: unwritable_plan)
  note c = conjunct1 [OF conjunct2 [OF conjunct2 [OF u]], rule_format,
      of ?done ProcessFiles ?m ?rest "''EACCES''", OF h]
  note u1 = conjunct1 [OF c] conjunct1 [OF conjunct2 [OF c]] conjunct2 [OF conjunct2 [OF c]]
  have q1: "run_result (build (sample_env\<lparr>executeQueries_res := Some ''query failed''\<rparr>)) =
     Inl ''query failed''"
    by (simp add: failing_queries_build)
  with conjunct1 [OF conjunct2 [OF conjunct2 [OF conjunct2 [OF conjunct2 [OF q]]]]]
  have q2: "in_order (pipeline (sample_env\<lparr>executeQueries_res := Some ''query failed''\<rparr>)) False
     (markers (fst (build (sample_env\<lparr>executeQueries_res := Some ''query failed''\<rparr>))))"
    by simp
  have q3: "markers (fst (build (sample_env\<lparr>executeQueries_res := Some ''query failed''\<rparr>))) =
     [Begin CreateApp, End CreateApp, Begin BeforeBuild, End BeforeBuild,
      Begin RunWebpack, End RunWebpack, Begin ExecuteQueries]"
    by (simp add: failing_queries_build)
  from u1(2,3) have u2: "fst (build unwritable_env) =
     [Begin CreateApp, End CreateApp, Begin BeforeBuild, End BeforeBuild,
      Begin RunWebpack, Log CompiledAssets, End RunWebpack,
      Begin ExecuteQueries, End ExecuteQueries,
      Begin RenderHTML, CreateWorker ''html-writer'',
      WorkerRender ''5f2c'' [''/'', ''/about''], Settled 0 None, WorkerEnd ''html-writer'',
      Log (RenderedHTML 2), End RenderHTML,
      Begin ProcessFiles, Copy ''src/favicon.png'' ''dist/favicon.png'']"
    "snd (snd (build unwritable_env)) = []"
    by (simp_all add: segment_def)
  from p t1 t2(2,3) t3 t4 t5 u1(1) u2 q1 q2 q3 show ?thesis
    by (intro conjI)
qed

end
